theory Spec2Isabelle
  imports Main
begin

section \<open>The state graph of \<open>regex.py\<close>\<close>

text \<open>
  The module compiles a pattern into a graph of \<open>State\<close> objects and runs the graph on an
  input string. A Python object is known by its identity: the source compares states with
  \<open>==\<close>, \<open>!=\<close> and \<open>in\<close>, none of the classes overrides \<open>__eq__\<close> or \<open>__hash__\<close>, so all of
  these are comparisons of references. The model keeps the objects in a store, a list of
  \<open>state\<close> records, and a reference is an index into it; a constructor call appends the new
  object, so its reference is the length of the store before the call.

  A character of a Python string is one code point; here it is a \<open>char\<close>, and \<open>ord\<close> is
  \<open>of_char\<close>. A Python \<open>set\<close> is a HOL set.

  Every exception the module raises on purpose is a \<open>ValueError\<close> with a message.
\<close>

datatype error = ValueError string

type_synonym ref = nat

text \<open>
  The class of an object and the fields \<open>check_self\<close> reads. The field \<open>checking_state\<close> of a
  \<open>StarState\<close> or \<open>PlusState\<close> is a reference in the source; the only use of it is the call
  \<open>self.checking_state.check_self(char)\<close>, and \<open>check_self\<close> reads fields that are assigned
  in the constructors only (\<open>curr_sym\<close>, \<open>char_ranges\<close>, \<open>individual_chars\<close>, \<open>negated\<close>,
  \<open>checking_state\<close>), never \<open>next_states\<close>. So the wrapped state's class and fields are
  stored in place of the reference.
\<close>

datatype state_kind =
    StartState
  | TerminationState
  | DotState
  | AsciiState char
  | CharacterClassState "(char \<times> char) list" "char set" bool
  | StarState state_kind
  | PlusState state_kind

record state =
  kind :: state_kind
  next_states :: "ref list"

definition ord :: "char \<Rightarrow> nat" where
  "ord c = of_char c"

fun check_self :: "state_kind \<Rightarrow> char \<Rightarrow> bool" where
  "check_self StartState char = False"
| "check_self TerminationState char = False"
| "check_self DotState char = True"
| "check_self (AsciiState curr_sym) curr_char = (curr_sym = curr_char)"
| "check_self (CharacterClassState char_ranges individual_chars negated) char =
     (let in_class = list_ex (\<lambda>(start, stop). ord start \<le> ord char \<and> ord char \<le> ord stop) char_ranges;
          in_class = (if \<not> in_class then char \<in> individual_chars else in_class)
      in if negated then \<not> in_class else in_class)"
| "check_self (StarState checking_state) char = check_self checking_state char"
| "check_self (PlusState checking_state) char = check_self checking_state char"

fun isinstance_StarState :: "state_kind \<Rightarrow> bool" where
  "isinstance_StarState (StarState checking_state) = True"
| "isinstance_StarState other = False"

fun isinstance_TerminationState :: "state_kind \<Rightarrow> bool" where
  "isinstance_TerminationState TerminationState = True"
| "isinstance_TerminationState other = False"

subsection \<open>\<open>CharacterClassState.__init__\<close>\<close>

text \<open>The \<open>while i < len(class_spec)\<close> loop, with the two collections it fills.\<close>

function class_spec_loop ::
  "string \<Rightarrow> nat \<Rightarrow> (char \<times> char) list \<Rightarrow> char set \<Rightarrow> (char \<times> char) list \<times> char set" where
  "class_spec_loop class_spec i char_ranges individual_chars =
     (if i < length class_spec then
        (if i + 2 < length class_spec \<and> class_spec ! (i + 1) = CHR ''-'' then
           class_spec_loop class_spec (i + 3)
             (char_ranges @ [(class_spec ! i, class_spec ! (i + 2))]) individual_chars
         else
           class_spec_loop class_spec (i + 1) char_ranges (insert (class_spec ! i) individual_chars))
      else (char_ranges, individual_chars))"
  by pat_completeness auto
termination
  by (relation "measure (\<lambda>(class_spec, i, char_ranges, individual_chars). length class_spec - i)") auto

declare class_spec_loop.simps [simp del]

definition new_CharacterClassState :: "string \<Rightarrow> state_kind" where
  "new_CharacterClassState class_spec =
     (let negated = (class_spec \<noteq> [] \<and> class_spec ! 0 = CHR ''^'');
          class_spec = (if negated then drop 1 class_spec else class_spec);
          filled = class_spec_loop class_spec 0 [] {}
      in CharacterClassState (fst filled) (snd filled) negated)"

subsection \<open>The store\<close>

text \<open>
  \<open>alloc\<close> is a constructor call: every constructor sets \<open>next_states = []\<close>.
  \<open>set_next\<close> assigns the field \<open>next_states\<close> of an object, \<open>append_next\<close> is
  \<open>parent.next_states.append(s)\<close>.
\<close>

definition alloc :: "state list \<Rightarrow> state_kind \<Rightarrow> ref \<times> state list" where
  "alloc h k = (length h, h @ [\<lparr>kind = k, next_states = []\<rparr>])"

definition set_next :: "state list \<Rightarrow> ref \<Rightarrow> ref list \<Rightarrow> state list" where
  "set_next h r ns = h[r := (h ! r)\<lparr>next_states := ns\<rparr>]"

definition append_next :: "state list \<Rightarrow> ref \<Rightarrow> ref \<Rightarrow> state list" where
  "append_next h r s = set_next h r (next_states (h ! r) @ [s])"

subsection \<open>\<open>RegexFSM.__init__\<close>\<close>

text \<open>The inner loop \<open>while j < len(regex_expr) and regex_expr[j] != ']'\<close>.\<close>

function find_close :: "string \<Rightarrow> nat \<Rightarrow> nat" where
  "find_close regex_expr j =
     (if j < length regex_expr \<and> regex_expr ! j \<noteq> CHR '']'' then find_close regex_expr (j + 1)
      else j)"
  by pat_completeness auto
termination
  by (relation "measure (\<lambda>(regex_expr, j). length regex_expr - j)") auto

declare find_close.simps [simp del]

text \<open>
  The branches for \<open>*\<close> and \<open>+\<close> are the same statements but for the class they
  instantiate, which is the parameter \<open>cls\<close> here (\<open>StarState\<close> or \<open>PlusState\<close>). The branch
  runs with \<open>states\<close> not empty: \<open>states[-1]\<close> is \<open>last states\<close> and \<open>states[-2]\<close> is the
  element before it.
\<close>

definition quantify ::
  "(state_kind \<Rightarrow> state_kind) \<Rightarrow> ref \<Rightarrow> ref list \<Rightarrow> state list \<Rightarrow> ref list \<times> state list" where
  "quantify cls start_state states h =
     (let prev_state = last states;
          (star_state, h) = alloc h (cls (kind (h ! prev_state)));
          parent = (if length states \<ge> 2 then states ! (length states - 2) else start_state);
          h = set_next h parent (filter (\<lambda>s. s \<noteq> prev_state) (next_states (h ! parent)));
          h = append_next h parent star_state;
          h = append_next h star_state star_state
      in (states[length states - 1 := star_state], h))"

text \<open>
  The last three statements of the \<open>[\<close> branch and of the \<open>else\<close> branch: the new state
  is linked from the last construct (or from the start state) and appended to \<open>states\<close>.
\<close>

definition add_state :: "state_kind \<Rightarrow> ref \<Rightarrow> ref list \<Rightarrow> state list \<Rightarrow> ref list \<times> state list" where
  "add_state k start_state states h =
     (let (new_state, h) = alloc h k;
          parent = (if states \<noteq> [] then last states else start_state);
          h = append_next h parent new_state
      in (states @ [new_state], h))"

lemma find_close_ge: "j \<le> find_close regex_expr j"
proof (induction regex_expr j rule: find_close.induct)
  case (1 regex_expr j)
  show ?case
  proof (cases "j < length regex_expr \<and> regex_expr ! j \<noteq> CHR '']''")
    case True
    with 1 have "j + 1 \<le> find_close regex_expr (j + 1)" by blast
    with True show ?thesis by (subst find_close.simps) simp
  next
    case False
    then show ?thesis by (subst find_close.simps) auto
  qed
qed

text \<open>The main loop \<open>while i < len(regex_expr)\<close>; it returns \<open>states\<close> and the store.\<close>

function compile_loop ::
  "string \<Rightarrow> ref \<Rightarrow> nat \<Rightarrow> ref list \<Rightarrow> state list \<Rightarrow> error + (ref list \<times> state list)" where
  "compile_loop regex_expr start_state i states h =
     (if i < length regex_expr then
        (let char = regex_expr ! i in
         if char = CHR ''*'' \<and> states \<noteq> [] then
           (let sh = quantify StarState start_state states h
            in compile_loop regex_expr start_state (i + 1) (fst sh) (snd sh))
         else if char = CHR ''+'' \<and> states \<noteq> [] then
           (let sh = quantify PlusState start_state states h
            in compile_loop regex_expr start_state (i + 1) (fst sh) (snd sh))
         else if char = CHR ''['' then
           (let j = find_close regex_expr (i + 1) in
            if j \<ge> length regex_expr then Inl (ValueError ''Unclosed character class'')
            else
              (let class_spec = take (j - (i + 1)) (drop (i + 1) regex_expr);
                   sh = add_state (new_CharacterClassState class_spec) start_state states h
               in compile_loop regex_expr start_state (j + 1) (fst sh) (snd sh)))
         else
           (let sh = add_state (if char = CHR ''.'' then DotState else AsciiState char)
                       start_state states h
            in compile_loop regex_expr start_state (i + 1) (fst sh) (snd sh)))
      else Inr (states, h))"
  by pat_completeness auto
termination
proof (relation "measure (\<lambda>(regex_expr, start_state, i, states, h). length regex_expr - i)")
  fix regex_expr :: string and i j :: nat
  assume "j = find_close regex_expr (i + 1)" and "\<not> length regex_expr \<le> j"
  moreover have "i + 1 \<le> find_close regex_expr (i + 1)" by (rule find_close_ge)
  ultimately show "((regex_expr, start_state, j + 1, fst sh, snd sh), (regex_expr, start_state, i, states, h))
      \<in> measure (\<lambda>(regex_expr, start_state, i, states, h). length regex_expr - i)"
    for start_state :: ref and states :: "ref list" and h :: "state list"
      and sh :: "ref list \<times> state list"
    by simp
qed auto

declare compile_loop.simps [simp del]

text \<open>
  A compiled machine: the object holds \<open>start_state\<close>; \<open>objects\<close> is the store the
  constructor leaves behind.
\<close>

record fsm =
  start_state :: ref
  objects :: "state list"

definition RegexFSM_init :: "string \<Rightarrow> error + fsm" where
  "RegexFSM_init regex_expr =
     (let (start, h) = alloc [] StartState in
      if regex_expr = [] then Inl (ValueError ''Empty regex pattern'')
      else if regex_expr = ''*'' \<or> regex_expr ! 0 = CHR ''*'' then
        Inl (ValueError (CHR 0x27 # CHR ''*'' # CHR 0x27 # '' cannot be used without a preceding character''))
      else if regex_expr = ''+'' \<or> regex_expr ! 0 = CHR ''+'' then
        Inl (ValueError (CHR 0x27 # CHR ''+'' # CHR 0x27 # '' cannot be used without a preceding character''))
      else
        (case compile_loop regex_expr start 0 [] h of
           Inl e \<Rightarrow> Inl e
         | Inr (states, h) \<Rightarrow>
             (let (term_state, h) = alloc h TerminationState;
                  h = (if states \<noteq> [] then append_next h (last states) term_state
                       else append_next h start term_state)
              in Inr \<lparr>start_state = start, objects = h\<rparr>)))"

section \<open>The matcher\<close>

text \<open>
  The source turns a set into a list with \<open>list(states)\<close> and iterates over sets with
  \<open>for state in current\<close>. The order in which a Python set yields its members is not
  specified (for these objects it follows their addresses), so it is a parameter of the
  model: \<open>enum\<close> lists a set, and \<open>valid_enum\<close> says that it lists each member of a finite
  set once and nothing else.
\<close>

definition valid_enum :: "(ref set \<Rightarrow> ref list) \<Rightarrow> bool" where
  "valid_enum enum = (\<forall>S. finite S \<longrightarrow> set (enum S) = S \<and> distinct (enum S))"

subsection \<open>\<open>_add_epsilon_transitions\<close>\<close>

text \<open>
  The two \<open>for next_state in state.next_states\<close> loops of the body; each updates \<open>res\<close>
  and \<open>worklist\<close>.
\<close>

definition epsilon_self ::
  "state list \<Rightarrow> ref \<Rightarrow> ref set \<Rightarrow> ref set \<times> ref list \<Rightarrow> ref set \<times> ref list" where
  "epsilon_self h state visited =
     fold (\<lambda>next_state (res, worklist).
             if next_state = state \<and> next_state \<notin> res then
               (insert next_state res,
                if next_state \<notin> visited then worklist @ [next_state] else worklist)
             else (res, worklist))
          (next_states (h ! state))"

definition epsilon_next ::
  "state list \<Rightarrow> ref \<Rightarrow> ref set \<Rightarrow> ref set \<times> ref list \<Rightarrow> ref set \<times> ref list" where
  "epsilon_next h state visited =
     fold (\<lambda>next_state (res, worklist).
             if isinstance_StarState (kind (h ! next_state)) \<and> next_state \<notin> visited then
               (insert next_state res, worklist @ [next_state])
             else (res, worklist))
          (next_states (h ! state))"

text \<open>
  The \<open>while worklist\<close> loop. The source gives no bound for it, so the model does not
  either: a run that never leaves the loop is the value \<open>None\<close>.
\<close>

partial_function (option) epsilon_loop ::
  "state list \<Rightarrow> ref list \<Rightarrow> ref set \<Rightarrow> ref set \<Rightarrow> ref set option" where
  "epsilon_loop h worklist visited res =
     (case worklist of
        [] \<Rightarrow> Some res
      | state # worklist \<Rightarrow>
          if state \<in> visited then epsilon_loop h worklist visited res
          else
            (let visited = insert state visited;
                 rw = (if isinstance_StarState (kind (h ! state))
                       then epsilon_self h state visited (res, worklist)
                       else (res, worklist));
                 rw = epsilon_next h state visited rw
             in epsilon_loop h (snd rw) visited (fst rw)))"

declare epsilon_loop.simps [code]

definition add_epsilon_transitions ::
  "(ref set \<Rightarrow> ref list) \<Rightarrow> state list \<Rightarrow> ref set \<Rightarrow> ref set option" where
  "add_epsilon_transitions enum h states = epsilon_loop h (enum states) {} states"

subsection \<open>\<open>_can_terminate_without_input\<close>\<close>

definition terminate_next :: "state list \<Rightarrow> ref \<Rightarrow> ref set \<Rightarrow> ref list \<Rightarrow> ref list" where
  "terminate_next h state visited =
     fold (\<lambda>next_state queue.
             if isinstance_StarState (kind (h ! next_state)) \<and> next_state \<notin> visited
             then queue @ [next_state] else queue)
          (next_states (h ! state))"

partial_function (option) terminate_loop ::
  "state list \<Rightarrow> ref list \<Rightarrow> ref set \<Rightarrow> bool option" where
  "terminate_loop h queue visited =
     (case queue of
        [] \<Rightarrow> Some False
      | state # queue \<Rightarrow>
          if state \<in> visited then terminate_loop h queue visited
          else
            (let visited = insert state visited in
             if list_ex (\<lambda>s. isinstance_TerminationState (kind (h ! s))) (next_states (h ! state))
             then Some True
             else terminate_loop h (terminate_next h state visited queue) visited))"

declare terminate_loop.simps [code]

definition can_terminate_without_input ::
  "(ref set \<Rightarrow> ref list) \<Rightarrow> state list \<Rightarrow> ref set \<Rightarrow> bool option" where
  "can_terminate_without_input enum h states = terminate_loop h (enum states) {}"

subsection \<open>\<open>check_string\<close>\<close>

text \<open>The nested \<open>for\<close> loops that collect \<open>next_states\<close> for one character.\<close>

definition collect_next :: "(ref set \<Rightarrow> ref list) \<Rightarrow> state list \<Rightarrow> ref set \<Rightarrow> char \<Rightarrow> ref set" where
  "collect_next enum h current char =
     fold (\<lambda>state acc.
             fold (\<lambda>next_state acc.
                     if check_self (kind (h ! next_state)) char then insert next_state acc else acc)
                  (next_states (h ! state)) acc)
          (enum current) {}"

text \<open>The loop \<open>for char in input_str\<close> and the \<open>return\<close> after it.\<close>

fun check_chars ::
  "(ref set \<Rightarrow> ref list) \<Rightarrow> state list \<Rightarrow> string \<Rightarrow> ref set \<Rightarrow> bool option" where
  "check_chars enum h [] current = can_terminate_without_input enum h current"
| "check_chars enum h (char # input_str) current =
     (let next_states = collect_next enum h current char in
      if next_states = {} then Some False
      else
        (case add_epsilon_transitions enum h next_states of
           None \<Rightarrow> None
         | Some current \<Rightarrow> check_chars enum h input_str current))"

text \<open>
  \<open>input_str\<close> is \<open>None\<close> or a string. The result is \<open>None\<close> when the call does not
  return, and else the exception raised or the boolean returned.
\<close>

definition check_string ::
  "(ref set \<Rightarrow> ref list) \<Rightarrow> fsm \<Rightarrow> string option \<Rightarrow> (error + bool) option" where
  "check_string enum self input_str =
     (case input_str of
        None \<Rightarrow> Some (Inl (ValueError ''Input string is required''))
      | Some input_str \<Rightarrow>
          (case add_epsilon_transitions enum (objects self) {start_state self} of
             None \<Rightarrow> None
           | Some current \<Rightarrow>
               if input_str = [] then
                 map_option Inr (can_terminate_without_input enum (objects self) current)
               else map_option Inr (check_chars enum (objects self) input_str current)))"

text \<open>\<open>RegexFSM(regex_expr).check_string(input_str)\<close>: compile, then match.\<close>

definition match :: "(ref set \<Rightarrow> ref list) \<Rightarrow> string \<Rightarrow> string option \<Rightarrow> (error + bool) option" where
  "match enum regex_expr input_str =
     (case RegexFSM_init regex_expr of
        Inl e \<Rightarrow> Some (Inl e)
      | Inr self \<Rightarrow> check_string enum self input_str)"


section \<open>Notions used in the statements and proofs\<close>

text \<open>
  None of the definitions of this section is part of the program: they describe stores,
  runs and patterns, and the lemmas below connect them with the program.

  A store is well formed when every reference it holds points into it; this is what
  Python guarantees of references. \<open>store_ok\<close> adds the references the constructor
  holds in \<open>self.start_state\<close> and in \<open>states\<close>.
\<close>

definition wf_heap :: "state list \<Rightarrow> bool" where
  "wf_heap h = (\<forall>s \<in> set h. \<forall>r \<in> set (next_states s). r < length h)"

definition store_ok :: "ref \<Rightarrow> ref list \<Rightarrow> state list \<Rightarrow> bool" where
  "store_ok start states h = (wf_heap h \<and> start < length h \<and> (\<forall>r\<in>set states. r < length h))"

text \<open>
  \<open>eps_reach h S\<close> is \<open>S\<close> with every \<open>StarState\<close> that a path of successor edges reaches
  from \<open>S\<close> through \<open>StarState\<close> objects only. \<open>has_termination h u\<close> says that some successor
  of \<open>u\<close> is the termination state, and \<open>successors h current char\<close> is the set of successors
  of members of \<open>current\<close> that accept \<open>char\<close>. With them, \<open>accepts\<close> states what a run of
  \<open>check_string\<close> decides, with no worklist, no visited set and no order of iteration.
\<close>

inductive_set eps_reach :: "state list \<Rightarrow> ref set \<Rightarrow> ref set" for h :: "state list" and S :: "ref set" where
  base: "u \<in> S \<Longrightarrow> u \<in> eps_reach h S"
| step: "u \<in> eps_reach h S \<Longrightarrow> v \<in> set (next_states (h ! u)) \<Longrightarrow>
         isinstance_StarState (kind (h ! v)) \<Longrightarrow> v \<in> eps_reach h S"

definition has_termination :: "state list \<Rightarrow> ref \<Rightarrow> bool" where
  "has_termination h u = list_ex (\<lambda>s. isinstance_TerminationState (kind (h ! s))) (next_states (h ! u))"

definition successors :: "state list \<Rightarrow> ref set \<Rightarrow> char \<Rightarrow> ref set" where
  "successors h current char =
     {t. \<exists>s\<in>current. t \<in> set (next_states (h ! s)) \<and> check_self (kind (h ! t)) char}"

fun accepts_from :: "state list \<Rightarrow> string \<Rightarrow> ref set \<Rightarrow> bool" where
  "accepts_from h [] current = (\<exists>u\<in>eps_reach h current. has_termination h u)"
| "accepts_from h (char # input_str) current =
     (successors h current char \<noteq> {} \<and>
      accepts_from h input_str (eps_reach h (successors h current char)))"

definition accepts :: "fsm \<Rightarrow> string \<Rightarrow> bool" where
  "accepts self input_str =
     accepts_from (objects self) input_str (eps_reach (objects self) {start_state self})"

text \<open>
  \<open>unclosed regex_expr i\<close>: at or after position \<open>i\<close> the pattern holds a \<open>[\<close> with
  no \<open>]\<close> anywhere after it.
\<close>

definition unclosed :: "string \<Rightarrow> nat \<Rightarrow> bool" where
  "unclosed regex_expr i =
     (\<exists>k. i \<le> k \<and> k < length regex_expr \<and> regex_expr ! k = CHR ''['' \<and>
          CHR '']'' \<notin> set (drop (k + 1) regex_expr))"

text \<open>
  The parsing of a bracket body as the specification words it: scanning from the left, a
  character followed by \<open>-\<close> and a third character is a range and three characters are
  consumed; any other character is a single one and one character is consumed. With fewer
  than three characters left no range is possible, and all of them are singles.
\<close>

fun body_ranges :: "string \<Rightarrow> (char \<times> char) list" where
  "body_ranges (a # b # c # rest) =
     (if b = CHR ''-'' then (a, c) # body_ranges rest else body_ranges (b # c # rest))"
| "body_ranges rest = []"

fun body_singles :: "string \<Rightarrow> char set" where
  "body_singles (a # b # c # rest) =
     (if b = CHR ''-'' then body_singles rest else insert a (body_singles (b # c # rest)))"
| "body_singles rest = set rest"

text \<open>
  \<open>written_range regex_expr low high\<close>: the pattern holds \<open>low\<close>, \<open>-\<close>, \<open>high\<close> at three
  consecutive positions. \<open>ranges_written\<close> says so of every range of a character-class
  state.
\<close>

definition written_range :: "string \<Rightarrow> char \<Rightarrow> char \<Rightarrow> bool" where
  "written_range regex_expr low high =
     (\<exists>k. k + 2 < length regex_expr \<and> regex_expr ! k = low \<and> regex_expr ! (k + 1) = CHR ''-'' \<and>
          regex_expr ! (k + 2) = high)"

definition ranges_written :: "string \<Rightarrow> state_kind \<Rightarrow> bool" where
  "ranges_written regex_expr k =
     (\<forall>char_ranges individual_chars negated. k = CharacterClassState char_ranges individual_chars negated \<longrightarrow>
        (\<forall>(low, high)\<in>set char_ranges. written_range regex_expr low high))"

text \<open>
  Patterns without \<open>*\<close>, \<open>+\<close> and \<open>[\<close>, the state the \<open>else\<close> branch of the main loop
  builds for a character, and the shape of the store such a pattern compiles to: state
  \<open>k + 1\<close> stands for the character at position \<open>k\<close>, each state but the last is followed by
  the next one, and the termination state is the last. \<open>chain_prefix\<close> is the same shape
  after \<open>i\<close> turns of the loop.
\<close>

definition simple_pattern :: "string \<Rightarrow> bool" where
  "simple_pattern regex_expr =
     (CHR ''*'' \<notin> set regex_expr \<and> CHR ''+'' \<notin> set regex_expr \<and> CHR ''['' \<notin> set regex_expr)"

definition literal_kind :: "char \<Rightarrow> state_kind" where
  "literal_kind c = (if c = CHR ''.'' then DotState else AsciiState c)"

definition chain_prefix :: "string \<Rightarrow> nat \<Rightarrow> ref list \<Rightarrow> state list \<Rightarrow> bool" where
  "chain_prefix regex_expr i states h =
     (i \<le> length regex_expr \<and> length h = i + 1 \<and> states = [1..<i + 1] \<and>
      kind (h ! 0) = StartState \<and>
      (\<forall>k<i. kind (h ! (k + 1)) = literal_kind (regex_expr ! k)) \<and>
      (\<forall>k<i. next_states (h ! k) = [k + 1]) \<and> next_states (h ! i) = [])"

definition chain :: "string \<Rightarrow> state list \<Rightarrow> bool" where
  "chain regex_expr h =
     (length h = length regex_expr + 2 \<and> kind (h ! 0) = StartState \<and>
      (\<forall>k<length regex_expr. kind (h ! (k + 1)) = literal_kind (regex_expr ! k)) \<and>
      kind (h ! (length regex_expr + 1)) = TerminationState \<and>
      (\<forall>k\<le>length regex_expr. next_states (h ! k) = [k + 1]) \<and>
      next_states (h ! (length regex_expr + 1)) = [])"

text \<open>
  The stores that the patterns \<open>a*\<close> and \<open>a+\<close> compile to. The state at reference 1 is the
  \<open>AsciiState\<close> that the quantifier wrapped: no state links to it any more.
\<close>

definition a_star_store :: "state list" where
  "a_star_store =
     [\<lparr>kind = StartState, next_states = [2]\<rparr>,
      \<lparr>kind = AsciiState CHR ''a'', next_states = []\<rparr>,
      \<lparr>kind = StarState (AsciiState CHR ''a''), next_states = [2, 3]\<rparr>,
      \<lparr>kind = TerminationState, next_states = []\<rparr>]"

definition a_plus_store :: "state list" where
  "a_plus_store =
     [\<lparr>kind = StartState, next_states = [2]\<rparr>,
      \<lparr>kind = AsciiState CHR ''a'', next_states = []\<rparr>,
      \<lparr>kind = PlusState (AsciiState CHR ''a''), next_states = [2, 3]\<rparr>,
      \<lparr>kind = TerminationState, next_states = []\<rparr>]"

section \<open>The two searches\<close>

text \<open>
  Both loops are worklist searches with a visited set. The invariants of
  \<open>epsilon_loop_correct\<close> and \<open>terminate_loop_correct\<close> give their results, and the number of
  objects not yet visited decreases whenever an object is taken up, so on a well-formed
  store they return, whatever the order of the worklist.
\<close>

lemma wf_heap_next: "wf_heap h \<Longrightarrow> u < length h \<Longrightarrow> v \<in> set (next_states (h ! u)) \<Longrightarrow> v < length h"
  unfolding wf_heap_def by (meson nth_mem)

lemma eps_reach_bound:
  assumes "wf_heap h" and "S \<subseteq> {..<length h}" and "u \<in> eps_reach h S"
  shows "u < length h"
  using assms(3)
proof (induction rule: eps_reach.induct)
  case (base u)
  with assms(2) show ?case by auto
next
  case (step u v)
  with assms(1) show ?case by (blast intro: wf_heap_next)
qed

lemma eps_reach_least:
  assumes "S \<subseteq> R" and "\<And>u v. u \<in> R \<Longrightarrow> v \<in> set (next_states (h ! u)) \<Longrightarrow>
      isinstance_StarState (kind (h ! v)) \<Longrightarrow> v \<in> R"
    and "u \<in> eps_reach h S"
  shows "u \<in> R"
  using assms(3)
proof (induction rule: eps_reach.induct)
  case (base u)
  with assms(1) show ?case by auto
next
  case (step u v)
  then show ?case using assms(2) by blast
qed

lemma eps_reach_subset:
  "wf_heap h \<Longrightarrow> S \<subseteq> {..<length h} \<Longrightarrow> eps_reach h S \<subseteq> {..<length h}"
  using eps_reach_bound by auto

lemma eps_reach_eqI:
  assumes "S \<subseteq> R"
    and "\<And>u v. u \<in> R \<Longrightarrow> v \<in> set (next_states (h ! u)) \<Longrightarrow>
           isinstance_StarState (kind (h ! v)) \<Longrightarrow> v \<in> R"
    and "R \<subseteq> eps_reach h S"
  shows "eps_reach h S = R"
  using assms eps_reach_least[of S R h] by blast

lemma epsilon_self_fold:
  "state \<in> res \<Longrightarrow>
   fold (\<lambda>next_state (res, worklist).
             if next_state = state \<and> next_state \<notin> res then
               (insert next_state res,
                if next_state \<notin> visited then worklist @ [next_state] else worklist)
             else (res, worklist)) ns (res, wl) = (res, wl)"
  by (induction ns) auto

lemma epsilon_self_id: "state \<in> res \<Longrightarrow> epsilon_self h state visited (res, wl) = (res, wl)"
  unfolding epsilon_self_def by (rule epsilon_self_fold)

lemma epsilon_next_fold:
  "fold (\<lambda>next_state (res, worklist).
             if P next_state then (insert next_state res, worklist @ [next_state])
             else (res, worklist)) ns (res, wl)
   = (res \<union> {v \<in> set ns. P v}, wl @ filter P ns)"
  by (induction ns arbitrary: res wl) auto

lemma epsilon_next_eq:
  "epsilon_next h state visited (res, wl) =
     (res \<union> {v \<in> set (next_states (h ! state)). isinstance_StarState (kind (h ! v)) \<and> v \<notin> visited},
      wl @ filter (\<lambda>v. isinstance_StarState (kind (h ! v)) \<and> v \<notin> visited) (next_states (h ! state)))"
  unfolding epsilon_next_def by (rule epsilon_next_fold)

lemma terminate_next_fold:
  "fold (\<lambda>next_state queue. if P next_state then queue @ [next_state] else queue) ns q
   = q @ filter P ns"
  by (induction ns arbitrary: q) auto

lemma terminate_next_eq:
  "terminate_next h state visited q =
     q @ filter (\<lambda>v. isinstance_StarState (kind (h ! v)) \<and> v \<notin> visited) (next_states (h ! state))"
  unfolding terminate_next_def by (rule terminate_next_fold)

lemma epsilon_loop_correct:
  assumes wf: "wf_heap h" and S: "S \<subseteq> {..<length h}"
  shows "card ({..<length h} - visited) = n \<Longrightarrow>
      set wl \<union> visited \<subseteq> res \<Longrightarrow> res \<subseteq> eps_reach h S \<Longrightarrow> S \<subseteq> res \<Longrightarrow>
      (\<forall>u\<in>visited. \<forall>v\<in>set (next_states (h ! u)). isinstance_StarState (kind (h ! v)) \<longrightarrow> v \<in> res) \<Longrightarrow>
      res \<subseteq> visited \<union> set wl \<Longrightarrow>
      epsilon_loop h wl visited res = Some (eps_reach h S)"
proof (induction n arbitrary: wl visited res rule: less_induct)
  case (less n)
  show ?case using less.prems
  proof (induction wl)
    case Nil
    then have "res = visited" by auto
    have "eps_reach h S \<subseteq> res"
    proof
      fix u assume "u \<in> eps_reach h S"
      then show "u \<in> res"
        using Nil.prems(4,5) \<open>res = visited\<close> by (rule_tac eps_reach_least[of S res h u]) auto
    qed
    with Nil.prems(3) have "res = eps_reach h S" by auto
    then show ?case by (subst epsilon_loop.simps) simp
  next
    case (Cons state wl)
    show ?case
    proof (cases "state \<in> visited")
      case True
      have "epsilon_loop h wl visited res = Some (eps_reach h S)"
        using Cons.prems True by (intro Cons.IH) auto
      with True show ?thesis by (subst epsilon_loop.simps) simp
    next
      case False
      have in_res: "state \<in> res" using Cons.prems(2) by auto
      then have "state \<in> eps_reach h S" using Cons.prems(3) by auto
      then have bound: "state < length h" using eps_reach_bound[OF wf S] by blast
      let ?P = "\<lambda>v. isinstance_StarState (kind (h ! v)) \<and> v \<notin> insert state visited"
      let ?ns = "next_states (h ! state)"
      let ?res = "res \<union> {v \<in> set ?ns. ?P v}"
      let ?wl = "wl @ filter ?P ?ns"
      have fin: "finite ({..<length h} - visited)" by simp
      have "card ({..<length h} - insert state visited) < card ({..<length h} - visited)"
        using bound False by (intro psubset_card_mono[OF fin]) auto
      then have lt: "card ({..<length h} - insert state visited) < n" using Cons.prems(1) by simp
      have sub: "?res \<subseteq> eps_reach h S"
        using Cons.prems(3) \<open>state \<in> eps_reach h S\<close> by (auto intro: eps_reach.step)
      have "epsilon_loop h ?wl (insert state visited) ?res = Some (eps_reach h S)"
      proof (rule less.IH[OF lt refl])
        show "set ?wl \<union> insert state visited \<subseteq> ?res" using Cons.prems(2) by auto
        show "?res \<subseteq> eps_reach h S" by (rule sub)
        show "S \<subseteq> ?res" using Cons.prems(4) by auto
        show "\<forall>u\<in>insert state visited. \<forall>v\<in>set (next_states (h ! u)).
                isinstance_StarState (kind (h ! v)) \<longrightarrow> v \<in> ?res"
          using Cons.prems(5) Cons.prems(2) by auto
        show "?res \<subseteq> insert state visited \<union> set ?wl" using Cons.prems(6) by auto
      qed
      then show ?thesis using False in_res
        by (subst epsilon_loop.simps) (simp add: epsilon_self_id epsilon_next_eq Let_def)
    qed
  qed
qed

lemma terminate_loop_correct:
  assumes wf: "wf_heap h" and S: "S \<subseteq> {..<length h}"
  shows "card ({..<length h} - visited) = n \<Longrightarrow>
      (\<forall>u\<in>visited. \<not> has_termination h u) \<Longrightarrow>
      (\<forall>u\<in>visited. \<forall>v\<in>set (next_states (h ! u)).
          isinstance_StarState (kind (h ! v)) \<longrightarrow> v \<in> visited \<union> set queue) \<Longrightarrow>
      S \<subseteq> visited \<union> set queue \<Longrightarrow> visited \<union> set queue \<subseteq> eps_reach h S \<Longrightarrow>
      terminate_loop h queue visited = Some (\<exists>u\<in>eps_reach h S. has_termination h u)"
proof (induction n arbitrary: queue visited rule: less_induct)
  case (less n)
  show ?case using less.prems
  proof (induction queue)
    case Nil
    have "eps_reach h S \<subseteq> visited"
    proof
      fix u assume "u \<in> eps_reach h S"
      then show "u \<in> visited"
        using Nil.prems(3,4) by (rule_tac eps_reach_least[of S visited h u]) auto
    qed
    with Nil.prems(2) have "\<not> (\<exists>u\<in>eps_reach h S. has_termination h u)" by auto
    then show ?case by (subst terminate_loop.simps) simp
  next
    case (Cons state queue)
    show ?case
    proof (cases "state \<in> visited")
      case True
      have "terminate_loop h queue visited = Some (\<exists>u\<in>eps_reach h S. has_termination h u)"
        using Cons.prems True by (intro Cons.IH) auto
      with True show ?thesis by (subst terminate_loop.simps) simp
    next
      case False
      have reach: "state \<in> eps_reach h S" using Cons.prems(5) by auto
      then have bound: "state < length h" using eps_reach_bound[OF wf S] by blast
      show ?thesis
      proof (cases "has_termination h state")
        case True
        with reach have "\<exists>u\<in>eps_reach h S. has_termination h u" by blast
        with True False show ?thesis
          by (subst terminate_loop.simps) (simp add: has_termination_def)
      next
        case noterm: False
        let ?P = "\<lambda>v. isinstance_StarState (kind (h ! v)) \<and> v \<notin> insert state visited"
        let ?ns = "next_states (h ! state)"
        let ?q = "queue @ filter ?P ?ns"
        have fin: "finite ({..<length h} - visited)" by simp
        have "card ({..<length h} - insert state visited) < card ({..<length h} - visited)"
          using bound False by (intro psubset_card_mono[OF fin]) auto
        then have lt: "card ({..<length h} - insert state visited) < n" using Cons.prems(1) by simp
        have "terminate_loop h ?q (insert state visited) = Some (\<exists>u\<in>eps_reach h S. has_termination h u)"
        proof (rule less.IH[OF lt refl])
          show "\<forall>u\<in>insert state visited. \<not> has_termination h u"
            using Cons.prems(2) noterm by auto
          show "\<forall>u\<in>insert state visited. \<forall>v\<in>set (next_states (h ! u)).
                  isinstance_StarState (kind (h ! v)) \<longrightarrow> v \<in> insert state visited \<union> set ?q"
            using Cons.prems(3) by auto
          show "S \<subseteq> insert state visited \<union> set ?q" using Cons.prems(4) by auto
          show "insert state visited \<union> set ?q \<subseteq> eps_reach h S"
            using Cons.prems(5) reach by (auto intro: eps_reach.step)
        qed
        then show ?thesis using False noterm
          by (subst terminate_loop.simps) (simp add: terminate_next_eq has_termination_def Let_def)
      qed
    qed
  qed
qed

lemma add_epsilon_transitions_eq:
  assumes "wf_heap h" and "S \<subseteq> {..<length h}" and "valid_enum enum"
  shows "add_epsilon_transitions enum h S = Some (eps_reach h S)"
proof -
  have "finite S" using assms(2) by (rule finite_subset) simp
  with assms(3) have e: "set (enum S) = S" by (simp add: valid_enum_def)
  show ?thesis
    unfolding add_epsilon_transitions_def
    by (rule epsilon_loop_correct[OF assms(1,2) refl]) (auto simp: e intro: eps_reach.base)
qed

lemma can_terminate_without_input_eq:
  assumes "wf_heap h" and "S \<subseteq> {..<length h}" and "valid_enum enum"
  shows "can_terminate_without_input enum h S = Some (\<exists>u\<in>eps_reach h S. has_termination h u)"
proof -
  have "finite S" using assms(2) by (rule finite_subset) simp
  with assms(3) have e: "set (enum S) = S" by (simp add: valid_enum_def)
  show ?thesis
    unfolding can_terminate_without_input_def
    by (rule terminate_loop_correct[OF assms(1,2) refl]) (auto simp: e intro: eps_reach.base)
qed

lemma collect_inner_fold:
  "fold (\<lambda>next_state acc. if P next_state then insert next_state acc else acc) ns acc
   = acc \<union> {t \<in> set ns. P t}"
  by (induction ns arbitrary: acc) auto

lemma collect_outer_fold:
  "fold (\<lambda>state acc. fold (\<lambda>next_state acc. if P next_state then insert next_state acc else acc)
            (nxt state) acc) xs acc
   = acc \<union> {t. \<exists>s\<in>set xs. t \<in> set (nxt s) \<and> P t}"
  by (induction xs arbitrary: acc) (auto simp: collect_inner_fold)

lemma collect_next_eq:
  assumes "finite current" and "valid_enum enum"
  shows "collect_next enum h current char = successors h current char"
proof -
  from assms have e: "set (enum current) = current" by (simp add: valid_enum_def)
  show ?thesis
    unfolding collect_next_def successors_def
    by (simp add: collect_outer_fold[where nxt="\<lambda>s. next_states (h ! s)"] e)
qed

lemma successors_bound:
  "wf_heap h \<Longrightarrow> current \<subseteq> {..<length h} \<Longrightarrow> successors h current char \<subseteq> {..<length h}"
  unfolding successors_def by (auto dest: wf_heap_next)

lemma check_chars_eq:
  assumes "wf_heap h" and "valid_enum enum"
  shows "current \<subseteq> {..<length h} \<Longrightarrow>
         check_chars enum h input_str current = Some (accepts_from h input_str current)"
proof (induction input_str arbitrary: current)
  case Nil
  then show ?case by (simp add: can_terminate_without_input_eq[OF assms(1) _ assms(2)])
next
  case (Cons char input_str)
  have fin: "finite current" using Cons.prems by (rule finite_subset) simp
  have sb: "successors h current char \<subseteq> {..<length h}"
    by (rule successors_bound[OF assms(1) Cons.prems])
  have "check_chars enum h input_str (eps_reach h (successors h current char))
        = Some (accepts_from h input_str (eps_reach h (successors h current char)))"
    by (rule Cons.IH) (rule eps_reach_subset[OF assms(1) sb])
  then show ?case
    by (simp add: collect_next_eq[OF fin assms(2)] Let_def
        add_epsilon_transitions_eq[OF assms(1) sb assms(2)])
qed

lemma check_string_eq:
  assumes "wf_heap (objects self)" and "start_state self < length (objects self)"
    and "valid_enum enum"
  shows "check_string enum self (Some input_str) = Some (Inr (accepts self input_str))"
proof -
  have sb: "{start_state self} \<subseteq> {..<length (objects self)}" using assms(2) by simp
  have rb: "eps_reach (objects self) {start_state self} \<subseteq> {..<length (objects self)}"
    by (rule eps_reach_subset[OF assms(1) sb])
  have cc: "check_chars enum (objects self) input_str (eps_reach (objects self) {start_state self})
      = Some (accepts_from (objects self) input_str (eps_reach (objects self) {start_state self}))"
    by (rule check_chars_eq[OF assms(1,3) rb])
  show ?thesis
  proof (cases input_str)
    case Nil
    then show ?thesis
      unfolding check_string_def accepts_def
      by (simp add: add_epsilon_transitions_eq[OF assms(1) sb assms(3)]
          can_terminate_without_input_eq[OF assms(1) rb assms(3)])
  next
    case (Cons char rest)
    then show ?thesis
      unfolding check_string_def accepts_def
      using cc by (simp add: add_epsilon_transitions_eq[OF assms(1) sb assms(3)]
          del: check_chars.simps accepts_from.simps)
  qed
qed

lemma valid_enum_sorted: "valid_enum sorted_list_of_set"
  by (simp add: valid_enum_def)

lemma valid_enum_rev: "valid_enum (rev \<circ> sorted_list_of_set)"
  by (simp add: valid_enum_def)

section \<open>The compiler\<close>

subsection \<open>The scan for the closing bracket\<close>

lemma find_close_stop:
  "find_close regex_expr j < length regex_expr \<Longrightarrow> regex_expr ! (find_close regex_expr j) = CHR '']''"
proof (induction regex_expr j rule: find_close.induct)
  case (1 regex_expr j)
  show ?case
  proof (cases "j < length regex_expr \<and> regex_expr ! j \<noteq> CHR '']''")
    case True
    then have eq: "find_close regex_expr j = find_close regex_expr (j + 1)"
      by (subst find_close.simps) simp
    with 1 True show ?thesis by simp
  next
    case False
    then have eq: "find_close regex_expr j = j" by (subst find_close.simps) auto
    with "1.prems" False show ?thesis by auto
  qed
qed

lemma find_close_skip:
  "j \<le> k \<Longrightarrow> k < find_close regex_expr j \<Longrightarrow> k < length regex_expr \<and> regex_expr ! k \<noteq> CHR '']''"
proof (induction regex_expr j rule: find_close.induct)
  case (1 regex_expr j)
  show ?case
  proof (cases "j < length regex_expr \<and> regex_expr ! j \<noteq> CHR '']''")
    case True
    then have eq: "find_close regex_expr j = find_close regex_expr (j + 1)"
      by (subst find_close.simps) simp
    show ?thesis
    proof (cases "k = j")
      case True
      with \<open>j < length regex_expr \<and> regex_expr ! j \<noteq> CHR '']''\<close> show ?thesis by simp
    next
      case False
      with "1.prems" have "j + 1 \<le> k" by simp
      with "1.IH"[OF True this] "1.prems"(2) eq show ?thesis by simp
    qed
  next
    case False
    then have eq: "find_close regex_expr j = j" by (subst find_close.simps) auto
    with "1.prems" show ?thesis by simp
  qed
qed

lemma find_close_none:
  "length regex_expr \<le> find_close regex_expr j \<Longrightarrow> j \<le> k \<Longrightarrow> k < length regex_expr \<Longrightarrow>
   regex_expr ! k \<noteq> CHR '']''"
  using find_close_skip[of j k regex_expr] by simp

lemma no_close_iff:
  "CHR '']'' \<notin> set (drop (k + 1) regex_expr) \<longleftrightarrow>
   (\<forall>j. k < j \<and> j < length regex_expr \<longrightarrow> regex_expr ! j \<noteq> CHR '']'')"
proof
  assume a: "CHR '']'' \<notin> set (drop (k + 1) regex_expr)"
  show "\<forall>j. k < j \<and> j < length regex_expr \<longrightarrow> regex_expr ! j \<noteq> CHR '']''"
  proof (intro allI impI)
    fix j assume j: "k < j \<and> j < length regex_expr"
    then have "drop (k + 1) regex_expr ! (j - (k + 1)) = regex_expr ! j" by simp
    moreover have "j - (k + 1) < length (drop (k + 1) regex_expr)" using j by auto
    ultimately have "regex_expr ! j \<in> set (drop (k + 1) regex_expr)" by (metis nth_mem)
    with a show "regex_expr ! j \<noteq> CHR '']''" by auto
  qed
next
  assume a: "\<forall>j. k < j \<and> j < length regex_expr \<longrightarrow> regex_expr ! j \<noteq> CHR '']''"
  show "CHR '']'' \<notin> set (drop (k + 1) regex_expr)"
  proof
    assume "CHR '']'' \<in> set (drop (k + 1) regex_expr)"
    then obtain m where m: "m < length (drop (k + 1) regex_expr)"
      "drop (k + 1) regex_expr ! m = CHR '']''" by (auto simp: in_set_conv_nth)
    then have "regex_expr ! (k + 1 + m) = CHR '']''" "k + 1 + m < length regex_expr" by auto
    with a show False by force
  qed
qed

lemma unclosed_0:
  "unclosed regex_expr 0 \<longleftrightarrow>
   (\<exists>k<length regex_expr. regex_expr ! k = CHR ''['' \<and> CHR '']'' \<notin> set (drop (k + 1) regex_expr))"
  by (auto simp: unclosed_def)

subsection \<open>One turn of the main loop, branch by branch\<close>

lemma compile_loop_done:
  "\<not> i < length regex_expr \<Longrightarrow> compile_loop regex_expr start i states h = Inr (states, h)"
  by (subst compile_loop.simps) simp

lemma compile_loop_star:
  "i < length regex_expr \<Longrightarrow> regex_expr ! i = CHR ''*'' \<Longrightarrow> states \<noteq> [] \<Longrightarrow>
   compile_loop regex_expr start i states h =
     compile_loop regex_expr start (i + 1) (fst (quantify StarState start states h))
       (snd (quantify StarState start states h))"
  by (subst compile_loop.simps) (simp add: Let_def)

lemma compile_loop_plus:
  "i < length regex_expr \<Longrightarrow> regex_expr ! i = CHR ''+'' \<Longrightarrow> states \<noteq> [] \<Longrightarrow>
   compile_loop regex_expr start i states h =
     compile_loop regex_expr start (i + 1) (fst (quantify PlusState start states h))
       (snd (quantify PlusState start states h))"
  by (subst compile_loop.simps) (simp add: Let_def)

lemma compile_loop_unclosed:
  "i < length regex_expr \<Longrightarrow> regex_expr ! i = CHR ''['' \<Longrightarrow>
   length regex_expr \<le> find_close regex_expr (i + 1) \<Longrightarrow>
   compile_loop regex_expr start i states h = Inl (ValueError ''Unclosed character class'')"
  by (subst compile_loop.simps) (simp add: Let_def)

lemma compile_loop_class:
  "i < length regex_expr \<Longrightarrow> regex_expr ! i = CHR ''['' \<Longrightarrow>
   find_close regex_expr (i + 1) < length regex_expr \<Longrightarrow>
   compile_loop regex_expr start i states h =
     (let j = find_close regex_expr (i + 1);
          k = new_CharacterClassState (take (j - (i + 1)) (drop (i + 1) regex_expr))
      in compile_loop regex_expr start (j + 1) (fst (add_state k start states h))
           (snd (add_state k start states h)))"
  by (subst compile_loop.simps) (simp add: Let_def)

lemma compile_loop_other:
  "i < length regex_expr \<Longrightarrow> regex_expr ! i \<noteq> CHR ''['' \<Longrightarrow>
   \<not> (regex_expr ! i = CHR ''*'' \<and> states \<noteq> []) \<Longrightarrow>
   \<not> (regex_expr ! i = CHR ''+'' \<and> states \<noteq> []) \<Longrightarrow>
   compile_loop regex_expr start i states h =
     (let k = (if regex_expr ! i = CHR ''.'' then DotState else AsciiState (regex_expr ! i))
      in compile_loop regex_expr start (i + 1) (fst (add_state k start states h))
           (snd (add_state k start states h)))"
  by (subst compile_loop.simps) (auto simp add: Let_def)

subsection \<open>When the loop raises\<close>

lemma compile_loop_error:
  "(compile_loop regex_expr start i states h = Inl e) \<longleftrightarrow>
   (e = ValueError ''Unclosed character class'' \<and> unclosed regex_expr i)"
proof (induction regex_expr start i states h rule: compile_loop.induct)
  case (1 regex_expr start i states h)
  show ?case
  proof (cases "i < length regex_expr")
    case False
    then show ?thesis by (auto simp: compile_loop_done unclosed_def)
  next
    case True
    let ?char = "regex_expr ! i"
    have shift: "unclosed regex_expr i \<longleftrightarrow> unclosed regex_expr (i + 1)" if "?char \<noteq> CHR ''[''"
      unfolding unclosed_def using that by (metis Suc_eq_plus1 Suc_leD Suc_leI le_neq_implies_less)
    consider (star) "?char = CHR ''*''" "states \<noteq> []"
      | (plus) "?char = CHR ''+''" "states \<noteq> []" "\<not> (?char = CHR ''*'' \<and> states \<noteq> [])"
      | (cls) "?char = CHR ''[''" "\<not> (?char = CHR ''*'' \<and> states \<noteq> [])" "\<not> (?char = CHR ''+'' \<and> states \<noteq> [])"
      | (other) "?char \<noteq> CHR ''[''" "\<not> (?char = CHR ''*'' \<and> states \<noteq> [])" "\<not> (?char = CHR ''+'' \<and> states \<noteq> [])"
      by blast
    then show ?thesis
    proof cases
      case star
      then have "?char \<noteq> CHR ''[''" by simp
      from shift[OF this] "1.IH"(1)[OF True refl _ refl] star show ?thesis
        by (simp add: compile_loop_star[OF True star])
    next
      case plus
      then have "?char \<noteq> CHR ''[''" by simp
      from shift[OF this] "1.IH"(2)[OF True refl _ _ refl] plus show ?thesis
        by (simp add: compile_loop_plus[OF True plus(1,2)])
    next
      case cls
      let ?j = "find_close regex_expr (i + 1)"
      show ?thesis
      proof (cases "length regex_expr \<le> ?j")
        case ge: True
        have "CHR '']'' \<notin> set (drop (i + 1) regex_expr)"
          unfolding no_close_iff using find_close_none[OF ge] by auto
        then have "unclosed regex_expr i" unfolding unclosed_def using True cls(1) by blast
        then show ?thesis by (auto simp: compile_loop_unclosed[OF True cls(1) ge])
      next
        case lt: False
        then have jl: "?j < length regex_expr" by simp
        have close: "regex_expr ! ?j = CHR '']''" by (rule find_close_stop[OF jl])
        have ij: "i < ?j" using find_close_ge[of "i + 1" regex_expr] by simp
        have "unclosed regex_expr i \<longleftrightarrow> unclosed regex_expr (?j + 1)"
        proof
          assume "unclosed regex_expr i"
          then obtain k where k: "i \<le> k" "k < length regex_expr" "regex_expr ! k = CHR ''[''"
            "\<forall>m. k < m \<and> m < length regex_expr \<longrightarrow> regex_expr ! m \<noteq> CHR '']''"
            unfolding unclosed_def no_close_iff by blast
          have "\<not> k < ?j" using k(4) jl close by blast
          moreover have "k \<noteq> ?j" using k(3) close by auto
          ultimately have "?j + 1 \<le> k" by simp
          with k show "unclosed regex_expr (?j + 1)" unfolding unclosed_def no_close_iff by blast
        next
          assume "unclosed regex_expr (?j + 1)"
          then show "unclosed regex_expr i" unfolding unclosed_def using ij
            by (meson add_leD1 le_trans less_imp_le_nat)
        qed
        with "1.IH"(3)[OF True refl _ _ _ refl lt refl refl] cls show ?thesis
          by (simp add: compile_loop_class[OF True cls(1) jl] Let_def)
      qed
    next
      case other
      from shift[OF other(1)] "1.IH"(4)[OF True refl _ _ _ refl] other show ?thesis
        by (simp add: compile_loop_other[OF True other] Let_def)
    qed
  qed
qed

lemma RegexFSM_init_error:
  "(\<exists>e. RegexFSM_init regex_expr = Inl e) \<longleftrightarrow>
   regex_expr = [] \<or> regex_expr ! 0 = CHR ''*'' \<or> regex_expr ! 0 = CHR ''+'' \<or> unclosed regex_expr 0"
proof -
  let ?run = "compile_loop regex_expr 0 0 [] [\<lparr>kind = StartState, next_states = []\<rparr>]"
  have "(\<exists>e. ?run = Inl e) \<longleftrightarrow> unclosed regex_expr 0" by (simp add: compile_loop_error)
  then show ?thesis
    by (cases ?run) (auto simp: RegexFSM_init_def alloc_def Let_def split: prod.splits)
qed

subsection \<open>Invariants of the loop\<close>

text \<open>
  A property that holds before the loop and that every branch preserves holds of the
  result.
\<close>

lemma compile_loop_invariant:
  assumes run: "compile_loop regex_expr start i states h = Inr (states', h')"
    and init: "P i states h"
    and quant: "\<And>i states h cls. i < length regex_expr \<Longrightarrow> states \<noteq> [] \<Longrightarrow> P i states h \<Longrightarrow>
        (regex_expr ! i = CHR ''*'' \<and> cls = StarState) \<or> (regex_expr ! i = CHR ''+'' \<and> cls = PlusState) \<Longrightarrow>
        P (i + 1) (fst (quantify cls start states h)) (snd (quantify cls start states h))"
    and cls: "\<And>i states h j k. i < length regex_expr \<Longrightarrow> regex_expr ! i = CHR ''['' \<Longrightarrow>
        j = find_close regex_expr (i + 1) \<Longrightarrow> j < length regex_expr \<Longrightarrow>
        k = new_CharacterClassState (take (j - (i + 1)) (drop (i + 1) regex_expr)) \<Longrightarrow> P i states h \<Longrightarrow>
        P (j + 1) (fst (add_state k start states h)) (snd (add_state k start states h))"
    and other: "\<And>i states h k. i < length regex_expr \<Longrightarrow> regex_expr ! i \<noteq> CHR ''['' \<Longrightarrow>
        states = [] \<or> (regex_expr ! i \<noteq> CHR ''*'' \<and> regex_expr ! i \<noteq> CHR ''+'') \<Longrightarrow>
        k = (if regex_expr ! i = CHR ''.'' then DotState else AsciiState (regex_expr ! i)) \<Longrightarrow>
        P i states h \<Longrightarrow>
        P (i + 1) (fst (add_state k start states h)) (snd (add_state k start states h))"
  shows "\<exists>n\<ge>length regex_expr. P n states' h'"
  using run init
proof (induction "length regex_expr - i" arbitrary: i states h rule: less_induct)
  case less
  note IH = less.hyps and run = less.prems(1) and inv = less.prems(2)
  show ?case
  proof (cases "i < length regex_expr")
    case False
    with run inv show ?thesis by (auto simp: compile_loop_done intro!: exI[of _ i])
  next
    case True
    let ?char = "regex_expr ! i"
    have dec: "length regex_expr - (i + 1) < length regex_expr - i" using True by simp
    consider (star) "?char = CHR ''*''" "states \<noteq> []"
      | (plus) "?char = CHR ''+''" "states \<noteq> []"
      | (cls) "?char = CHR ''[''" "\<not> (?char = CHR ''*'' \<and> states \<noteq> [])" "\<not> (?char = CHR ''+'' \<and> states \<noteq> [])"
      | (other) "?char \<noteq> CHR ''[''" "\<not> (?char = CHR ''*'' \<and> states \<noteq> [])" "\<not> (?char = CHR ''+'' \<and> states \<noteq> [])"
      by blast
    then show ?thesis
    proof cases
      case star
      let ?sh = "quantify StarState start states h"
      have "compile_loop regex_expr start (i + 1) (fst ?sh) (snd ?sh) = Inr (states', h')"
        using run by (simp add: compile_loop_star[OF True star])
      moreover have "P (i + 1) (fst ?sh) (snd ?sh)"
        using quant[OF True star(2) inv] star(1) by simp
      ultimately show ?thesis by (rule IH[OF dec])
    next
      case plus
      let ?sh = "quantify PlusState start states h"
      have "compile_loop regex_expr start (i + 1) (fst ?sh) (snd ?sh) = Inr (states', h')"
        using run by (simp add: compile_loop_plus[OF True plus])
      moreover have "P (i + 1) (fst ?sh) (snd ?sh)"
        using quant[OF True plus(2) inv] plus(1) by simp
      ultimately show ?thesis by (rule IH[OF dec])
    next
      case c: cls
      let ?j = "find_close regex_expr (i + 1)"
      let ?k = "new_CharacterClassState (take (?j - (i + 1)) (drop (i + 1) regex_expr))"
      let ?sh = "add_state ?k start states h"
      have nj: "\<not> length regex_expr \<le> ?j"
        using run by (auto simp: compile_loop_unclosed[OF True c(1)])
      then have jl: "?j < length regex_expr" by simp
      have "i + 1 \<le> ?j" by (rule find_close_ge)
      then have decj: "length regex_expr - (?j + 1) < length regex_expr - i" using jl by simp
      have "compile_loop regex_expr start (?j + 1) (fst ?sh) (snd ?sh) = Inr (states', h')"
        using run by (simp add: compile_loop_class[OF True c(1) jl] Let_def)
      moreover have "P (?j + 1) (fst ?sh) (snd ?sh)"
        by (rule cls[OF True c(1) refl jl refl inv])
      ultimately show ?thesis by (rule IH[OF decj])
    next
      case c: other
      let ?k = "if ?char = CHR ''.'' then DotState else AsciiState ?char"
      let ?sh = "add_state ?k start states h"
      have "compile_loop regex_expr start (i + 1) (fst ?sh) (snd ?sh) = Inr (states', h')"
        using run by (simp add: compile_loop_other[OF True c] Let_def)
      moreover have "P (i + 1) (fst ?sh) (snd ?sh)"
        using c by (intro other[OF True c(1) _ refl inv]) auto
      ultimately show ?thesis by (rule IH[OF dec])
    qed
  qed
qed

lemma RegexFSM_init_Inr:
  assumes "RegexFSM_init regex_expr = Inr self"
  obtains states h where "regex_expr \<noteq> []" and "regex_expr ! 0 \<noteq> CHR ''*''"
    and "regex_expr ! 0 \<noteq> CHR ''+''"
    and "compile_loop regex_expr 0 0 [] [\<lparr>kind = StartState, next_states = []\<rparr>] = Inr (states, h)"
    and "start_state self = 0"
    and "objects self = append_next (h @ [\<lparr>kind = TerminationState, next_states = []\<rparr>])
           (if states \<noteq> [] then last states else 0) (length h)"
  using assms
  by (auto simp: RegexFSM_init_def alloc_def Let_def split: if_splits sum.splits prod.splits)

subsection \<open>Compiled stores are well formed\<close>

lemma length_set_next [simp]: "length (set_next h r ns) = length h"
  by (simp add: set_next_def)

lemma length_append_next [simp]: "length (append_next h r s) = length h"
  by (simp add: append_next_def)

lemma wf_heap_append:
  "wf_heap h \<Longrightarrow> wf_heap (h @ [\<lparr>kind = k, next_states = []\<rparr>])"
  unfolding wf_heap_def by (auto intro: less_SucI)

lemma wf_heap_set_next:
  assumes "wf_heap h" and "\<forall>r\<in>set ns. r < length h"
  shows "wf_heap (set_next h r ns)"
proof -
  have "set (set_next h r ns) \<subseteq> insert ((h ! r)\<lparr>next_states := ns\<rparr>) (set h)"
    unfolding set_next_def by (rule set_update_subset_insert)
  with assms show ?thesis unfolding wf_heap_def by auto
qed

lemma wf_heap_append_next:
  assumes "wf_heap h" and "s < length h"
  shows "wf_heap (append_next h r s)"
proof (cases "r < length h")
  case True
  then have "\<forall>x\<in>set (next_states (h ! r) @ [s]). x < length h"
    using assms by (auto dest: wf_heap_next)
  then show ?thesis unfolding append_next_def by (rule wf_heap_set_next[OF assms(1)])
next
  case False
  then have "length h \<le> r" by simp
  then show ?thesis using assms(1) by (simp add: append_next_def set_next_def list_update_beyond)
qed

lemma store_ok_add_state:
  assumes "store_ok start states h"
  shows "store_ok start (fst (add_state k start states h)) (snd (add_state k start states h))"
proof -
  let ?h1 = "h @ [\<lparr>kind = k, next_states = []\<rparr>]"
  have "wf_heap ?h1" using assms by (simp add: store_ok_def wf_heap_append)
  then have "wf_heap (append_next ?h1 (if states \<noteq> [] then last states else start) (length h))"
    by (rule wf_heap_append_next) simp
  then show ?thesis using assms
    by (auto simp: store_ok_def add_state_def alloc_def Let_def less_Suc_eq)
qed

lemma store_ok_quantify:
  assumes "store_ok start states h" and "states \<noteq> []"
  shows "store_ok start (fst (quantify cls start states h)) (snd (quantify cls start states h))"
proof -
  let ?prev = "last states"
  let ?h1 = "h @ [\<lparr>kind = cls (kind (h ! ?prev)), next_states = []\<rparr>]"
  let ?parent = "if length states \<ge> 2 then states ! (length states - 2) else start"
  let ?h2 = "set_next ?h1 ?parent (filter (\<lambda>s. s \<noteq> ?prev) (next_states (?h1 ! ?parent)))"
  let ?h3 = "append_next ?h2 ?parent (length h)"
  let ?h4 = "append_next ?h3 (length h) (length h)"
  have w1: "wf_heap ?h1" using assms by (simp add: store_ok_def wf_heap_append)
  have pb: "?parent < length ?h1" using assms(1) by (auto simp: store_ok_def less_Suc_eq)
  have "\<forall>r\<in>set (filter (\<lambda>s. s \<noteq> ?prev) (next_states (?h1 ! ?parent))). r < length ?h1"
    using wf_heap_next[OF w1 pb] by auto
  with w1 have w2: "wf_heap ?h2" by (rule wf_heap_set_next)
  then have w3: "wf_heap ?h3" by (rule wf_heap_append_next) simp
  then have w4: "wf_heap ?h4" by (rule wf_heap_append_next) simp
  have "\<forall>r\<in>set (states[length states - 1 := length h]). r < Suc (length h)"
    using assms(1) by (auto simp: store_ok_def less_Suc_eq dest!: subsetD[OF set_update_subset_insert])
  with w4 show ?thesis using assms(1)
    by (simp add: store_ok_def quantify_def alloc_def Let_def less_Suc_eq)
qed

lemma compile_loop_store_ok:
  assumes "compile_loop regex_expr start i states h = Inr (states', h')" and "store_ok start states h"
  shows "store_ok start states' h'"
proof -
  have "\<exists>n\<ge>length regex_expr. (\<lambda>i states h. store_ok start states h) n states' h'"
    using assms
  proof (rule compile_loop_invariant)
  qed (auto intro: store_ok_quantify store_ok_add_state)
  then show ?thesis by blast
qed

lemma compiled_store_ok:
  assumes "RegexFSM_init regex_expr = Inr self"
  shows "wf_heap (objects self)" and "start_state self < length (objects self)"
proof -
  from assms obtain states h where
    run: "compile_loop regex_expr 0 0 [] [\<lparr>kind = StartState, next_states = []\<rparr>] = Inr (states, h)"
    and st: "start_state self = 0"
    and ob: "objects self = append_next (h @ [\<lparr>kind = TerminationState, next_states = []\<rparr>])
           (if states \<noteq> [] then last states else 0) (length h)"
    by (rule RegexFSM_init_Inr)
  have "store_ok 0 [] [\<lparr>kind = StartState, next_states = []\<rparr>]"
    by (simp add: store_ok_def wf_heap_def)
  with run have ok: "store_ok 0 states h" by (rule compile_loop_store_ok)
  then have "wf_heap (h @ [\<lparr>kind = TerminationState, next_states = []\<rparr>])"
    by (simp add: store_ok_def wf_heap_append)
  then show "wf_heap (objects self)" unfolding ob by (rule wf_heap_append_next) simp
  show "start_state self < length (objects self)" using ok by (simp add: st ob store_ok_def)
qed

section \<open>Character classes\<close>

lemma drop3:
  assumes "i + 2 < length xs"
  shows "drop i xs = xs ! i # xs ! (i + 1) # xs ! (i + 2) # drop (i + 3) xs"
proof -
  have "drop i xs = xs ! i # drop (Suc i) xs" using assms by (simp add: Cons_nth_drop_Suc)
  also have "drop (Suc i) xs = xs ! (i + 1) # drop (Suc (Suc i)) xs"
    using assms by (simp add: Cons_nth_drop_Suc)
  also have "drop (Suc (Suc i)) xs = xs ! (i + 2) # drop (i + 3) xs"
    using assms by (simp add: Cons_nth_drop_Suc numeral_3_eq_3)
  finally show ?thesis .
qed

lemma body_short:
  "length xs < 3 \<Longrightarrow> body_ranges xs = [] \<and> body_singles xs = set xs"
  by (cases xs rule: body_ranges.cases) auto

lemma class_spec_loop_eq:
  "class_spec_loop class_spec i char_ranges individual_chars =
     (char_ranges @ body_ranges (drop i class_spec),
      individual_chars \<union> body_singles (drop i class_spec))"
proof (induction class_spec i char_ranges individual_chars rule: class_spec_loop.induct)
  case (1 class_spec i char_ranges individual_chars)
  show ?case
  proof (cases "i < length class_spec")
    case False
    then show ?thesis by (subst class_spec_loop.simps) simp
  next
    case True
    show ?thesis
    proof (cases "i + 2 < length class_spec \<and> class_spec ! (i + 1) = CHR ''-''")
      case range: True
      then have d: "drop i class_spec =
          class_spec ! i # CHR ''-'' # class_spec ! (i + 2) # drop (i + 3) class_spec"
        using drop3[of i class_spec] by simp
      show ?thesis
        using "1.IH"(1)[OF True range] True range
        by (subst class_spec_loop.simps) (simp add: d)
    next
      case single: False
      have step: "body_ranges (drop i class_spec) = body_ranges (drop (i + 1) class_spec) \<and>
          body_singles (drop i class_spec) =
            insert (class_spec ! i) (body_singles (drop (i + 1) class_spec))"
      proof (cases "i + 2 < length class_spec")
        case long: True
        with single have nd: "class_spec ! (i + 1) \<noteq> CHR ''-''" by simp
        have d: "drop i class_spec =
            class_spec ! i # class_spec ! (i + 1) # class_spec ! (i + 2) # drop (i + 3) class_spec"
          by (rule drop3[OF long])
        have "drop i class_spec = class_spec ! i # drop (Suc i) class_spec"
          using True by (simp add: Cons_nth_drop_Suc)
        with d have d1: "drop (Suc i) class_spec =
            class_spec ! (i + 1) # class_spec ! (i + 2) # drop (i + 3) class_spec"
          by simp
        show ?thesis using nd by (simp add: d d1)
      next
        case short: False
        have d: "drop i class_spec = class_spec ! i # drop (i + 1) class_spec"
          using True by (simp add: Cons_nth_drop_Suc)
        have "length (drop i class_spec) < 3" "length (drop (i + 1) class_spec) < 3"
          using short by auto
        then show ?thesis using body_short d by (metis list.simps(15))
      qed
      show ?thesis
        using "1.IH"(2)[OF True single] True single step
        by (subst class_spec_loop.simps) auto
    qed
  qed
qed

lemma new_CharacterClassState_eq:
  "new_CharacterClassState class_spec =
     (let negated = (class_spec \<noteq> [] \<and> hd class_spec = CHR ''^'');
          body = (if negated then tl class_spec else class_spec)
      in CharacterClassState (body_ranges body) (body_singles body) negated)"
proof -
  have "class_spec \<noteq> [] \<Longrightarrow> class_spec ! 0 = hd class_spec" by (simp add: hd_conv_nth)
  then show ?thesis
    by (auto simp: new_CharacterClassState_def Let_def class_spec_loop_eq drop_Suc)
qed

lemma check_self_class:
  "check_self (CharacterClassState char_ranges individual_chars negated) char =
     (((\<exists>(low, high)\<in>set char_ranges. ord low \<le> ord char \<and> ord char \<le> ord high)
        \<or> char \<in> individual_chars) \<noteq> negated)"
  by (auto simp: list_ex_iff Let_def)

lemma body_ranges_in:
  "(low, high) \<in> set (body_ranges xs) \<Longrightarrow> written_range xs low high"
proof (induction xs rule: body_ranges.induct)
  case (1 a b c rest)
  show ?case
  proof (cases "b = CHR ''-''")
    case True
    show ?thesis
    proof (cases "(low, high) = (a, c)")
      case True
      with \<open>b = CHR ''-''\<close> show ?thesis
        unfolding written_range_def by (intro exI[of _ 0]) simp
    next
      case False
      with 1 True have "written_range rest low high" by auto
      then obtain k where "k + 2 < length rest" "rest ! k = low" "rest ! (k + 1) = CHR ''-''"
        "rest ! (k + 2) = high" unfolding written_range_def by blast
      then show ?thesis unfolding written_range_def by (intro exI[of _ "k + 3"]) simp
    qed
  next
    case False
    with 1 have "written_range (b # c # rest) low high" by simp
    then obtain k where "k + 2 < length (b # c # rest)" "(b # c # rest) ! k = low"
      "(b # c # rest) ! (k + 1) = CHR ''-''" "(b # c # rest) ! (k + 2) = high"
      unfolding written_range_def by blast
    then show ?thesis unfolding written_range_def by (intro exI[of _ "k + 1"]) simp
  qed
qed simp_all

lemma written_range_drop:
  "written_range (drop n xs) low high \<Longrightarrow> written_range xs low high"
proof -
  assume "written_range (drop n xs) low high"
  then obtain k where k: "k + 2 < length (drop n xs)" "drop n xs ! k = low"
    "drop n xs ! (k + 1) = CHR ''-''" "drop n xs ! (k + 2) = high"
    unfolding written_range_def by blast
  then have "n + k + 2 < length xs" by simp
  moreover have "xs ! (n + k) = low" "xs ! (n + k + 1) = CHR ''-''" "xs ! (n + k + 2) = high"
    using k by (simp_all add: add.assoc)
  ultimately show ?thesis unfolding written_range_def by blast
qed

lemma written_range_take:
  "written_range (take n xs) low high \<Longrightarrow> written_range xs low high"
  unfolding written_range_def by auto

lemma ranges_written_new:
  "ranges_written regex_expr (new_CharacterClassState (take n (drop m regex_expr)))"
proof -
  let ?spec = "take n (drop m regex_expr)"
  let ?body = "if ?spec \<noteq> [] \<and> hd ?spec = CHR ''^'' then tl ?spec else ?spec"
  have "written_range regex_expr low high" if "(low, high) \<in> set (body_ranges ?body)" for low high
  proof -
    have "written_range ?body low high" using that by (rule body_ranges_in)
    then have "written_range ?spec low high"
      using written_range_drop[of 1 ?spec] by (auto simp: drop_Suc split: if_splits)
    then show ?thesis by (blast intro: written_range_take written_range_drop)
  qed
  then show ?thesis
    using new_CharacterClassState_eq[of ?spec] unfolding ranges_written_def Let_def by auto
qed

lemma set_next_kinds:
  fixes h :: "state list"
  shows "s \<in> set (set_next h r ns) \<Longrightarrow> \<exists>t\<in>set h. kind s = kind t"
proof -
  assume a: "s \<in> set (set_next h r ns)"
  show ?thesis
  proof (cases "r < length h")
    case True
    have "set (set_next h r ns) \<subseteq> insert ((h ! r)\<lparr>next_states := ns\<rparr>) (set h)"
      unfolding set_next_def by (rule set_update_subset_insert)
    with a True have "s = (h ! r)\<lparr>next_states := ns\<rparr> \<or> s \<in> set h" by auto
    then show ?thesis
    proof
      assume "s = (h ! r)\<lparr>next_states := ns\<rparr>"
      then have "kind s = kind (h ! r)" by simp
      with True show ?thesis by (metis nth_mem)
    qed blast
  next
    case False
    with a show ?thesis by (auto simp: set_next_def list_update_beyond)
  qed
qed

lemma append_next_kinds:
  "s \<in> set (append_next h r x) \<Longrightarrow> \<exists>t\<in>set h. kind s = kind t"
  unfolding append_next_def by (rule set_next_kinds)

lemma add_state_kinds:
  "s \<in> set (snd (add_state k start states h)) \<Longrightarrow> kind s = k \<or> (\<exists>t\<in>set h. kind s = kind t)"
  by (auto simp: add_state_def alloc_def Let_def dest!: append_next_kinds)

lemma quantify_kinds:
  "s \<in> set (snd (quantify cls start states h)) \<Longrightarrow>
   kind s = cls (kind (h ! last states)) \<or> (\<exists>t\<in>set h. kind s = kind t)"
  by (auto simp: quantify_def alloc_def Let_def dest!: append_next_kinds set_next_kinds)

lemma ranges_written_simps [simp]:
  "ranges_written regex_expr StartState" "ranges_written regex_expr TerminationState"
  "ranges_written regex_expr DotState" "ranges_written regex_expr (AsciiState c)"
  "ranges_written regex_expr (StarState k)" "ranges_written regex_expr (PlusState k)"
  by (simp_all add: ranges_written_def)

lemma compiled_ranges_written:
  assumes "RegexFSM_init regex_expr = Inr self" and "s \<in> set (objects self)"
  shows "ranges_written regex_expr (kind s)"
proof -
  from assms(1) obtain states h where
    run: "compile_loop regex_expr 0 0 [] [\<lparr>kind = StartState, next_states = []\<rparr>] = Inr (states, h)"
    and ob: "objects self = append_next (h @ [\<lparr>kind = TerminationState, next_states = []\<rparr>])
           (if states \<noteq> [] then last states else 0) (length h)"
    by (rule RegexFSM_init_Inr)
  let ?P = "\<lambda>(i::nat) (states::ref list) (h::state list). \<forall>s\<in>set h. ranges_written regex_expr (kind s)"
  have "\<exists>n\<ge>length regex_expr. ?P n states h"
    using run
  proof (rule compile_loop_invariant)
    show "?P 0 [] [\<lparr>kind = StartState, next_states = []\<rparr>]" by simp
  next
    fix i states h cls
    assume "?P i states h" and
      "regex_expr ! i = CHR ''*'' \<and> cls = StarState \<or> regex_expr ! i = CHR ''+'' \<and> cls = PlusState"
    then show "?P (i + 1) (fst (quantify cls 0 states h)) (snd (quantify cls 0 states h))"
      by (auto dest!: quantify_kinds)
  next
    fix i states h j k
    assume "k = new_CharacterClassState (take (j - (i + 1)) (drop (i + 1) regex_expr))"
      and "?P i states h"
    then show "?P (j + 1) (fst (add_state k 0 states h)) (snd (add_state k 0 states h))"
      using ranges_written_new[of regex_expr "j - (i + 1)" "i + 1"]
      by (auto dest!: add_state_kinds)
  next
    fix i states h k
    assume "k = (if regex_expr ! i = CHR ''.'' then DotState else AsciiState (regex_expr ! i))"
      and "?P i states h"
    then show "?P (i + 1) (fst (add_state k 0 states h)) (snd (add_state k 0 states h))"
      by (auto dest!: add_state_kinds)
  qed
  then have "\<forall>s\<in>set (h @ [\<lparr>kind = TerminationState, next_states = []\<rparr>]).
      ranges_written regex_expr (kind s)"
    by auto
  with assms(2) show ?thesis unfolding ob by (auto dest!: append_next_kinds)
qed

lemma compiled_reversed: "RegexFSM_init ''[z-a]'' = Inr \<lparr>start_state = 0, objects =
          [\<lparr>kind = StartState, next_states = [1]\<rparr>,
           \<lparr>kind = CharacterClassState [(CHR ''z'', CHR ''a'')] {} False, next_states = [2]\<rparr>,
           \<lparr>kind = TerminationState, next_states = []\<rparr>]\<rparr>"
  by code_simp

lemma compiled_a_to_z: "RegexFSM_init ''[a-z]'' = Inr \<lparr>start_state = 0, objects =
          [\<lparr>kind = StartState, next_states = [1]\<rparr>,
           \<lparr>kind = CharacterClassState [(CHR ''a'', CHR ''z'')] {} False, next_states = [2]\<rparr>,
           \<lparr>kind = TerminationState, next_states = []\<rparr>]\<rparr>"
  by code_simp

section \<open>Patterns of literal characters and dots\<close>

lemma last_upt1: "0 < i \<Longrightarrow> last [1..<i + 1] = i"
  by (induction i) auto

lemma chain_prefix_step:
  assumes "chain_prefix regex_expr i states h" and "i < length regex_expr"
  shows "chain_prefix regex_expr (i + 1)
           (fst (add_state (literal_kind (regex_expr ! i)) 0 states h))
           (snd (add_state (literal_kind (regex_expr ! i)) 0 states h))"
proof -
  let ?new = "\<lparr>kind = literal_kind (regex_expr ! i), next_states = []\<rparr>"
  from assms(1) have len: "length h = i + 1" and st: "states = [1..<i + 1]"
    and k0: "kind (h ! 0) = StartState"
    and ks: "\<forall>k<i. kind (h ! (k + 1)) = literal_kind (regex_expr ! k)"
    and ns: "\<forall>k<i. next_states (h ! k) = [k + 1]" and nl: "next_states (h ! i) = []"
    by (simp_all add: chain_prefix_def)
  have parent: "(if states \<noteq> [] then last states else 0) = i"
    using st last_upt1[of i] by (cases "i = 0") auto
  let ?h2 = "(h @ [?new])[i := (h ! i)\<lparr>next_states := [i + 1]\<rparr>]"
  have eq: "add_state (literal_kind (regex_expr ! i)) 0 states h = (states @ [i + 1], ?h2)"
    using parent len nl
    by (simp add: add_state_def alloc_def Let_def append_next_def set_next_def nth_append)
  have "kind (?h2 ! 0) = StartState" using k0 len by (cases "i = 0") (simp_all add: nth_append)
  moreover have "kind (?h2 ! (k + 1)) = literal_kind (regex_expr ! k)" if "k < i + 1" for k
    using that ks len by (cases "k + 1 = i") (auto simp: nth_append nth_list_update less_Suc_eq)
  moreover have "next_states (?h2 ! k) = [k + 1]" if "k < i + 1" for k
    using that ns len by (auto simp: nth_append nth_list_update less_Suc_eq)
  moreover have "next_states (?h2 ! (i + 1)) = []" using len by (simp add: nth_append)
  moreover have "states @ [i + 1] = [1..<i + 1 + 1]" using st by simp
  ultimately show ?thesis
    unfolding eq chain_prefix_def using assms(2) len by simp
qed

lemma simple_pattern_nth:
  "simple_pattern regex_expr \<Longrightarrow> i < length regex_expr \<Longrightarrow>
   regex_expr ! i \<noteq> CHR ''*'' \<and> regex_expr ! i \<noteq> CHR ''+'' \<and> regex_expr ! i \<noteq> CHR ''[''"
  unfolding simple_pattern_def by (metis nth_mem)

lemma simple_compiles:
  assumes "simple_pattern regex_expr" and "regex_expr \<noteq> []"
  shows "\<exists>self. RegexFSM_init regex_expr = Inr self"
proof -
  have "\<not> unclosed regex_expr 0"
    using simple_pattern_nth[OF assms(1)] unfolding unclosed_def by blast
  then have "\<And>e. compile_loop regex_expr 0 0 [] [\<lparr>kind = StartState, next_states = []\<rparr>] \<noteq> Inl e"
    by (simp add: compile_loop_error)
  then obtain sh where
    "compile_loop regex_expr 0 0 [] [\<lparr>kind = StartState, next_states = []\<rparr>] = Inr sh"
    by (meson sum.exhaust_sel Inl_Inr_False sumE)
  moreover have "regex_expr ! 0 \<noteq> CHR ''*''" "regex_expr ! 0 \<noteq> CHR ''+''"
    using simple_pattern_nth[OF assms(1), of 0] assms(2) by auto
  ultimately show ?thesis using assms(2)
    by (cases sh) (auto simp: RegexFSM_init_def alloc_def Let_def)
qed

lemma simple_compiled_chain:
  assumes "simple_pattern regex_expr" and "RegexFSM_init regex_expr = Inr self"
  shows "chain regex_expr (objects self)" and "start_state self = 0"
proof -
  from assms(2) obtain states h where ne: "regex_expr \<noteq> []" and
    run: "compile_loop regex_expr 0 0 [] [\<lparr>kind = StartState, next_states = []\<rparr>] = Inr (states, h)"
    and st: "start_state self = 0"
    and ob: "objects self = append_next (h @ [\<lparr>kind = TerminationState, next_states = []\<rparr>])
           (if states \<noteq> [] then last states else 0) (length h)"
    by (rule RegexFSM_init_Inr)
  show "start_state self = 0" by (rule st)
  have "\<exists>n\<ge>length regex_expr. chain_prefix regex_expr n states h"
    using run
  proof (rule compile_loop_invariant)
    show "chain_prefix regex_expr 0 [] [\<lparr>kind = StartState, next_states = []\<rparr>]"
      by (simp add: chain_prefix_def)
  next
    fix i states h cls
    assume "i < length regex_expr" and
      "regex_expr ! i = CHR ''*'' \<and> cls = StarState \<or> regex_expr ! i = CHR ''+'' \<and> cls = PlusState"
    then have False using simple_pattern_nth[OF assms(1), of i] by auto
    then show "chain_prefix regex_expr (i + 1) (fst (quantify cls 0 states h))
        (snd (quantify cls 0 states h))" ..
  next
    fix i states h j k
    assume "i < length regex_expr" and "regex_expr ! i = CHR ''[''"
    then have False using simple_pattern_nth[OF assms(1), of i] by auto
    then show "chain_prefix regex_expr (j + 1) (fst (add_state k 0 states h))
        (snd (add_state k 0 states h))" ..
  next
    fix i states h k
    assume "i < length regex_expr"
      and "k = (if regex_expr ! i = CHR ''.'' then DotState else AsciiState (regex_expr ! i))"
      and "chain_prefix regex_expr i states h"
    then show "chain_prefix regex_expr (i + 1) (fst (add_state k 0 states h))
        (snd (add_state k 0 states h))"
      using chain_prefix_step[of regex_expr i states h] by (simp add: literal_kind_def)
  qed
  then obtain n where n: "length regex_expr \<le> n" "chain_prefix regex_expr n states h" by blast
  then have "n = length regex_expr" by (simp add: chain_prefix_def)
  with n have cp: "chain_prefix regex_expr (length regex_expr) states h" by simp
  let ?n = "length regex_expr"
  from cp have len: "length h = ?n + 1" and sts: "states = [1..<?n + 1]"
    and k0: "kind (h ! 0) = StartState"
    and ks: "\<forall>k<?n. kind (h ! (k + 1)) = literal_kind (regex_expr ! k)"
    and ns: "\<forall>k<?n. next_states (h ! k) = [k + 1]" and nl: "next_states (h ! ?n) = []"
    by (simp_all add: chain_prefix_def)
  have pos: "0 < ?n" using ne by simp
  have parent: "(if states \<noteq> [] then last states else 0) = ?n"
    using sts last_upt1[OF pos] pos by auto
  let ?h2 = "(h @ [\<lparr>kind = TerminationState, next_states = []\<rparr>])[?n := (h ! ?n)\<lparr>next_states := [?n + 1]\<rparr>]"
  have eq: "objects self = ?h2"
    unfolding ob parent using len nl by (simp add: append_next_def set_next_def nth_append)
  have "kind (?h2 ! 0) = StartState" using k0 len pos by (simp add: nth_append)
  moreover have "kind (?h2 ! (k + 1)) = literal_kind (regex_expr ! k)" if "k < ?n" for k
  proof -
    have "kind (h ! (k + 1)) = literal_kind (regex_expr ! k)" using ks that by simp
    moreover have "kind (?h2 ! (k + 1)) = kind (h ! (k + 1))"
      using that len by (cases "k + 1 = ?n") (simp_all add: nth_append nth_list_update)
    ultimately show ?thesis by simp
  qed
  moreover have "kind (?h2 ! (?n + 1)) = TerminationState" using len by (simp add: nth_append)
  moreover have "next_states (?h2 ! k) = [k + 1]" if "k \<le> ?n" for k
    using that ns len by (cases "k = ?n") (auto simp: nth_append nth_list_update)
  moreover have "next_states (?h2 ! (?n + 1)) = []" using len by (simp add: nth_append)
  ultimately show "chain regex_expr (objects self)"
    unfolding eq chain_def using len by simp
qed

lemma literal_kind_not_star [simp]: "\<not> isinstance_StarState (literal_kind c)"
  by (simp add: literal_kind_def)

lemma literal_kind_not_term [simp]: "\<not> isinstance_TerminationState (literal_kind c)"
  by (simp add: literal_kind_def)

lemma check_self_literal [simp]: "check_self (literal_kind c) x \<longleftrightarrow> c = CHR ''.'' \<or> c = x"
  by (simp add: literal_kind_def)

lemma chain_no_star:
  assumes "chain regex_expr h" and "v \<le> length regex_expr + 1"
  shows "\<not> isinstance_StarState (kind (h ! v))"
proof -
  consider "v = 0" | k where "v = k + 1" "k < length regex_expr" | "v = length regex_expr + 1"
    using assms(2) by (cases v) (auto simp: less_Suc_eq_le le_less)
  then show ?thesis using assms(1) by cases (auto simp: chain_def)
qed

lemma chain_eps_reach:
  assumes "chain regex_expr h" and "S \<subseteq> {..length regex_expr + 1}"
  shows "eps_reach h S = S"
proof
  show "S \<subseteq> eps_reach h S" by (auto intro: eps_reach.base)
  show "eps_reach h S \<subseteq> S"
  proof
    fix u assume "u \<in> eps_reach h S"
    then show "u \<in> S"
    proof (induction rule: eps_reach.induct)
      case (base u)
      then show ?case .
    next
      case (step u v)
      from step.IH assms(2) have ub: "u \<le> length regex_expr + 1" by auto
      have "v \<le> length regex_expr + 1"
      proof (cases "u \<le> length regex_expr")
        case True
        with assms(1) have "next_states (h ! u) = [u + 1]" by (simp add: chain_def)
        with step.hyps(2) True show ?thesis by simp
      next
        case False
        with ub have "u = length regex_expr + 1" by simp
        with assms(1) have "next_states (h ! u) = []" by (simp add: chain_def)
        with step.hyps(2) show ?thesis by simp
      qed
      with chain_no_star[OF assms(1)] step.hyps(3) show ?case by blast
    qed
  qed
qed

lemma chain_has_termination:
  assumes "chain regex_expr h" and "k \<le> length regex_expr"
  shows "has_termination h k \<longleftrightarrow> k = length regex_expr"
proof (cases "k = length regex_expr")
  case True
  with assms(1) show ?thesis by (simp add: has_termination_def chain_def)
next
  case False
  with assms(2) have lt: "k < length regex_expr" by simp
  with assms(1) have "next_states (h ! k) = [k + 1]"
    "kind (h ! (k + 1)) = literal_kind (regex_expr ! k)" by (simp_all add: chain_def)
  with False show ?thesis by (simp add: has_termination_def)
qed

lemma chain_successors:
  assumes "chain regex_expr h" and "k \<le> length regex_expr"
  shows "successors h {k} char =
     (if k < length regex_expr \<and> (regex_expr ! k = CHR ''.'' \<or> regex_expr ! k = char)
      then {k + 1} else {})"
proof (cases "k < length regex_expr")
  case True
  with assms(1) have "next_states (h ! k) = [k + 1]"
    "kind (h ! (k + 1)) = literal_kind (regex_expr ! k)" by (simp_all add: chain_def)
  with True show ?thesis by (auto simp: successors_def)
next
  case False
  with assms(2) have "k = length regex_expr" by simp
  with assms(1) have "next_states (h ! k) = [k + 1]" "kind (h ! (k + 1)) = TerminationState"
    by (simp_all add: chain_def)
  with False show ?thesis by (auto simp: successors_def)
qed

lemma chain_accepts_from:
  assumes "chain regex_expr h"
  shows "k \<le> length regex_expr \<Longrightarrow>
     accepts_from h input_str {k} \<longleftrightarrow>
       (length input_str = length regex_expr - k \<and>
        (\<forall>i<length input_str. regex_expr ! (k + i) = CHR ''.'' \<or> regex_expr ! (k + i) = input_str ! i))"
proof (induction input_str arbitrary: k)
  case Nil
  have "eps_reach h {k} = {k}" using Nil by (intro chain_eps_reach[OF assms]) simp
  then show ?case using chain_has_termination[OF assms Nil] Nil by auto
next
  case (Cons char rest)
  note succ = chain_successors[OF assms Cons.prems, of char]
  show ?case
  proof (cases "k < length regex_expr \<and> (regex_expr ! k = CHR ''.'' \<or> regex_expr ! k = char)")
    case True
    then have k1: "k + 1 \<le> length regex_expr" by simp
    have "eps_reach h {k + 1} = {k + 1}" using k1 by (intro chain_eps_reach[OF assms]) simp
    with succ True have "accepts_from h (char # rest) {k} = accepts_from h rest {k + 1}" by simp
    also have "\<dots> \<longleftrightarrow> (length rest = length regex_expr - (k + 1) \<and>
        (\<forall>i<length rest. regex_expr ! (k + 1 + i) = CHR ''.'' \<or> regex_expr ! (k + 1 + i) = rest ! i))"
      by (rule Cons.IH[OF k1])
    also have "\<dots> \<longleftrightarrow> (length (char # rest) = length regex_expr - k \<and>
        (\<forall>i<length (char # rest). regex_expr ! (k + i) = CHR ''.'' \<or>
            regex_expr ! (k + i) = (char # rest) ! i))"
      using True by (auto simp: All_less_Suc2 less_Suc_eq_0_disj)
    finally show ?thesis .
  next
    case False
    with succ have "\<not> accepts_from h (char # rest) {k}" by simp
    moreover have "\<not> (length (char # rest) = length regex_expr - k \<and>
        (\<forall>i<length (char # rest). regex_expr ! (k + i) = CHR ''.'' \<or>
            regex_expr ! (k + i) = (char # rest) ! i))"
    proof (cases "k < length regex_expr")
      case True
      with False have "\<not> (regex_expr ! (k + 0) = CHR ''.'' \<or> regex_expr ! (k + 0) = (char # rest) ! 0)"
        by simp
      then show ?thesis by (metis length_greater_0_conv list.distinct(1))
    next
      case False
      then show ?thesis by simp
    qed
    ultimately show ?thesis by blast
  qed
qed

section \<open>The patterns \<open>a*\<close> and \<open>a+\<close>\<close>

lemma compiled_a_star: "RegexFSM_init ''a*'' = Inr \<lparr>start_state = 0, objects = a_star_store\<rparr>"
  unfolding a_star_store_def by code_simp

lemma compiled_a_plus: "RegexFSM_init ''a+'' = Inr \<lparr>start_state = 0, objects = a_plus_store\<rparr>"
  unfolding a_plus_store_def by code_simp

lemma a_star_eps0: "eps_reach a_star_store {0} = {0, 2}"
proof (rule eps_reach_eqI)
  show "{0, 2} \<subseteq> eps_reach a_star_store {0}"
    using eps_reach.step[of 0 a_star_store "{0}" 2] eps_reach.base[of 0 "{0}" a_star_store]
    by (simp add: a_star_store_def)
qed (auto simp: a_star_store_def)

lemma a_star_eps2: "eps_reach a_star_store {2} = {2}"
  by (rule eps_reach_eqI) (auto simp: a_star_store_def intro: eps_reach.base)

lemma a_star_eps02: "eps_reach a_star_store {0, 2} = {0, 2}"
  by (rule eps_reach_eqI) (auto simp: a_star_store_def intro: eps_reach.base)

lemma a_star_succ:
  "successors a_star_store {0, 2} char = (if char = CHR ''a'' then {2} else {})"
  "successors a_star_store {2} char = (if char = CHR ''a'' then {2} else {})"
  by (auto simp: successors_def a_star_store_def)

lemma a_star_term: "has_termination a_star_store 2"
  by (simp add: has_termination_def a_star_store_def)

lemma a_star_from2: "accepts_from a_star_store input_str {2} \<longleftrightarrow> set input_str \<subseteq> {CHR ''a''}"
  by (induction input_str) (auto simp: a_star_eps2 a_star_succ a_star_term)

lemma a_star_accepts:
  "accepts \<lparr>start_state = 0, objects = a_star_store\<rparr> input_str \<longleftrightarrow> set input_str \<subseteq> {CHR ''a''}"
  by (cases input_str)
     (auto simp: accepts_def a_star_eps0 a_star_eps02 a_star_eps2 a_star_succ a_star_term a_star_from2)

lemma a_plus_eps: "eps_reach a_plus_store {0} = {0}" "eps_reach a_plus_store {2} = {2}"
  by (rule eps_reach_eqI; auto simp: a_plus_store_def intro: eps_reach.base)+

lemma a_plus_succ:
  "successors a_plus_store {0} char = (if char = CHR ''a'' then {2} else {})"
  "successors a_plus_store {2} char = (if char = CHR ''a'' then {2} else {})"
  by (auto simp: successors_def a_plus_store_def)

lemma a_plus_term: "has_termination a_plus_store 2" "\<not> has_termination a_plus_store 0"
  by (simp_all add: has_termination_def a_plus_store_def)

lemma a_plus_from2: "accepts_from a_plus_store input_str {2} \<longleftrightarrow> set input_str \<subseteq> {CHR ''a''}"
  by (induction input_str) (auto simp: a_plus_eps a_plus_succ a_plus_term)

lemma a_plus_accepts:
  "accepts \<lparr>start_state = 0, objects = a_plus_store\<rparr> input_str \<longleftrightarrow>
     input_str \<noteq> [] \<and> set input_str \<subseteq> {CHR ''a''}"
  by (cases input_str) (auto simp: accepts_def a_plus_eps a_plus_succ a_plus_term a_plus_from2)

lemma match_a_star:
  assumes "valid_enum enum"
  shows "match enum ''a*'' (Some input_str) = Some (Inr (set input_str \<subseteq> {CHR ''a''}))"
proof -
  have "wf_heap a_star_store" by (simp add: wf_heap_def a_star_store_def)
  then have "check_string enum \<lparr>start_state = 0, objects = a_star_store\<rparr> (Some input_str)
      = Some (Inr (accepts \<lparr>start_state = 0, objects = a_star_store\<rparr> input_str))"
    using assms by (intro check_string_eq) (simp_all add: a_star_store_def)
  then show ?thesis by (simp add: match_def compiled_a_star a_star_accepts)
qed

lemma match_a_plus:
  assumes "valid_enum enum"
  shows "match enum ''a+'' (Some input_str) =
     Some (Inr (input_str \<noteq> [] \<and> set input_str \<subseteq> {CHR ''a''}))"
proof -
  have "wf_heap a_plus_store" by (simp add: wf_heap_def a_plus_store_def)
  then have "check_string enum \<lparr>start_state = 0, objects = a_plus_store\<rparr> (Some input_str)
      = Some (Inr (accepts \<lparr>start_state = 0, objects = a_plus_store\<rparr> input_str))"
    using assms by (intro check_string_eq) (simp_all add: a_plus_store_def)
  then show ?thesis by (simp add: match_def compiled_a_plus a_plus_accepts)
qed

section \<open>The claims\<close>

subsection \<open>C1: patterns of literal characters and dots\<close>

text \<open>
  Claim C1, as amended. For every pattern that is not empty and holds no \<open>*\<close>, no \<open>+\<close> and
  no \<open>[\<close>, compiling it and matching an input string returns a boolean, and the boolean is
  true if and only if the input has the length of the pattern and at every position the
  pattern character is \<open>.\<close> or is the input character. This holds whatever order the sets of
  states are iterated in.
\<close>

theorem literal_dot_patterns:
  assumes "regex_expr \<noteq> []"
    and "CHR ''*'' \<notin> set regex_expr" and "CHR ''+'' \<notin> set regex_expr" and "CHR ''['' \<notin> set regex_expr"
    and "valid_enum enum"
  shows "match enum regex_expr (Some input_str) =
     Some (Inr (length input_str = length regex_expr \<and>
       (\<forall>i<length regex_expr. regex_expr ! i = CHR ''.'' \<or> regex_expr ! i = input_str ! i)))"
proof -
  have simple: "simple_pattern regex_expr" using assms(2-4) by (simp add: simple_pattern_def)
  then obtain self where c: "RegexFSM_init regex_expr = Inr self"
    using simple_compiles assms(1) by blast
  have ch: "chain regex_expr (objects self)" and st: "start_state self = 0"
    using simple_compiled_chain[OF simple c] by auto
  have wf: "wf_heap (objects self)" and sb: "start_state self < length (objects self)"
    using compiled_store_ok[OF c] by auto
  have "check_string enum self (Some input_str) = Some (Inr (accepts self input_str))"
    by (rule check_string_eq[OF wf sb assms(5)])
  moreover have "eps_reach (objects self) {0} = {0}"
    by (intro chain_eps_reach[OF ch]) simp
  then have "accepts self input_str \<longleftrightarrow> (length input_str = length regex_expr \<and>
       (\<forall>i<length input_str. regex_expr ! i = CHR ''.'' \<or> regex_expr ! i = input_str ! i))"
    using chain_accepts_from[OF ch, of 0 input_str] by (simp add: accepts_def st)
  then have "accepts self input_str \<longleftrightarrow> (length input_str = length regex_expr \<and>
       (\<forall>i<length regex_expr. regex_expr ! i = CHR ''.'' \<or> regex_expr ! i = input_str ! i))"
    by auto
  ultimately show ?thesis by (simp add: match_def c)
qed

text \<open>
  The theorem at the pattern \<open>a.c\<close> and the inputs \<open>abc\<close>, \<open>ac\<close> and \<open>axc\<close> of the
  specification.
\<close>

theorem literal_dot_patterns_witness:
  "match sorted_list_of_set ''a.c'' (Some ''abc'') = Some (Inr True) \<and>
   match sorted_list_of_set ''a.c'' (Some ''ac'') = Some (Inr False) \<and>
   match sorted_list_of_set ''a.c'' (Some ''axc'') = Some (Inr True)"
  using literal_dot_patterns[of "''a.c''" sorted_list_of_set "''abc''"]
    literal_dot_patterns[of "''a.c''" sorted_list_of_set "''ac''"]
    literal_dot_patterns[of "''a.c''" sorted_list_of_set "''axc''"]
  by (simp add: valid_enum_sorted All_less_Suc numeral_3_eq_3)

text \<open>
  Claim C1 as it is stated fails at the empty pattern, which holds only literal characters
  and dots: the input \<open>""\<close> has its length and there is no position to compare, but
  the constructor raises \<open>ValueError\<close>, so no match returns true.
\<close>

theorem empty_pattern_counterexample:
  "match sorted_list_of_set '''' (Some '''') = Some (Inl (ValueError ''Empty regex pattern'')) \<and>
   match sorted_list_of_set '''' (Some '''') \<noteq> Some (Inr True) \<and>
   length ('''' :: string) = length ('''' :: string)"
  by (simp add: match_def RegexFSM_init_def alloc_def)

subsection \<open>C2: the patterns \<open>a*\<close> and \<open>a+\<close>\<close>

text \<open>
  Claim C2. The pattern \<open>a*\<close> matches \<open>""\<close>, \<open>a\<close> and \<open>aaaa\<close> and does not match \<open>b\<close>; the
  pattern \<open>a+\<close> does not match \<open>""\<close> and matches \<open>a\<close> and \<open>aaa\<close>; in whatever order the sets
  of states are iterated.
\<close>

theorem star_and_plus_examples:
  assumes "valid_enum enum"
  shows "match enum ''a*'' (Some '''') = Some (Inr True) \<and>
         match enum ''a*'' (Some ''a'') = Some (Inr True) \<and>
         match enum ''a*'' (Some ''aaaa'') = Some (Inr True) \<and>
         match enum ''a*'' (Some ''b'') = Some (Inr False) \<and>
         match enum ''a+'' (Some '''') = Some (Inr False) \<and>
         match enum ''a+'' (Some ''a'') = Some (Inr True) \<and>
         match enum ''a+'' (Some ''aaa'') = Some (Inr True)"
  by (simp add: match_a_star[OF assms] match_a_plus[OF assms])

theorem star_and_plus_examples_witness:
  "match sorted_list_of_set ''a*'' (Some '''') = Some (Inr True) \<and>
   match sorted_list_of_set ''a*'' (Some ''a'') = Some (Inr True) \<and>
   match sorted_list_of_set ''a*'' (Some ''aaaa'') = Some (Inr True) \<and>
   match sorted_list_of_set ''a*'' (Some ''b'') = Some (Inr False) \<and>
   match sorted_list_of_set ''a+'' (Some '''') = Some (Inr False) \<and>
   match sorted_list_of_set ''a+'' (Some ''a'') = Some (Inr True) \<and>
   match sorted_list_of_set ''a+'' (Some ''aaa'') = Some (Inr True)"
  by (rule star_and_plus_examples[OF valid_enum_sorted])

subsection \<open>C3: the patterns the compiler rejects\<close>

text \<open>
  Claim C3. The constructor raises \<open>ValueError\<close> for the empty pattern, for a pattern
  whose first character is \<open>*\<close>, for a pattern whose first character is \<open>+\<close> (each with
  the message of the source), and for every pattern that holds a \<open>[\<close> with no \<open>]\<close> after
  it.
\<close>

theorem invalid_patterns_rejected:
  "(regex_expr = [] \<longrightarrow> RegexFSM_init regex_expr = Inl (ValueError ''Empty regex pattern'')) \<and>
   (regex_expr \<noteq> [] \<and> regex_expr ! 0 = CHR ''*'' \<longrightarrow>
      RegexFSM_init regex_expr =
        Inl (ValueError (CHR 0x27 # CHR ''*'' # CHR 0x27 # '' cannot be used without a preceding character''))) \<and>
   (regex_expr \<noteq> [] \<and> regex_expr ! 0 = CHR ''+'' \<longrightarrow>
      RegexFSM_init regex_expr =
        Inl (ValueError (CHR 0x27 # CHR ''+'' # CHR 0x27 # '' cannot be used without a preceding character''))) \<and>
   ((\<exists>k<length regex_expr. regex_expr ! k = CHR ''['' \<and> CHR '']'' \<notin> set (drop (k + 1) regex_expr)) \<longrightarrow>
      (\<exists>message. RegexFSM_init regex_expr = Inl (ValueError message)))"
proof -
  have "\<exists>message. RegexFSM_init regex_expr = Inl (ValueError message)"
    if "\<exists>k<length regex_expr. regex_expr ! k = CHR ''['' \<and> CHR '']'' \<notin> set (drop (k + 1) regex_expr)"
  proof -
    from that have "unclosed regex_expr 0" by (simp add: unclosed_0)
    then obtain e where "RegexFSM_init regex_expr = Inl e" using RegexFSM_init_error by blast
    then show ?thesis by (cases e) auto
  qed
  then show ?thesis by (auto simp: RegexFSM_init_def alloc_def)
qed

theorem invalid_patterns_rejected_witness:
  "RegexFSM_init '''' = Inl (ValueError ''Empty regex pattern'') \<and>
   RegexFSM_init ''*abc'' =
     Inl (ValueError (CHR 0x27 # CHR ''*'' # CHR 0x27 # '' cannot be used without a preceding character'')) \<and>
   RegexFSM_init ''+x'' =
     Inl (ValueError (CHR 0x27 # CHR ''+'' # CHR 0x27 # '' cannot be used without a preceding character'')) \<and>
   (\<exists>message. RegexFSM_init ''[abc'' = Inl (ValueError message))"
proof -
  have "\<exists>k<length ''[abc''. ''[abc'' ! k = CHR ''['' \<and> CHR '']'' \<notin> set (drop (k + 1) ''[abc'')"
    by (rule exI[of _ 0]) simp
  then show ?thesis
    using invalid_patterns_rejected[of "''''"] invalid_patterns_rejected[of "''*abc''"]
      invalid_patterns_rejected[of "''+x''"] invalid_patterns_rejected[of "''[abc''"]
    by simp
qed

subsection \<open>C4: parsing a character class\<close>

text \<open>
  Claim C4. The constructor of \<open>CharacterClassState\<close> sets \<open>negated\<close> when the
  specification starts with \<open>^\<close> and drops that character; of the rest it makes the ranges
  and single characters that \<open>body_ranges\<close> and \<open>body_singles\<close> describe; and the state accepts
  a character if and only if (it lies in some range or is one of the single characters)
  differs from \<open>negated\<close>, which is exclusive or.
\<close>

theorem character_class_parsing:
  "new_CharacterClassState class_spec =
     (let negated = (class_spec \<noteq> [] \<and> hd class_spec = CHR ''^'');
          body = (if negated then tl class_spec else class_spec)
      in CharacterClassState (body_ranges body) (body_singles body) negated)
   \<and> check_self (CharacterClassState char_ranges individual_chars negated) char =
     (((\<exists>(low, high)\<in>set char_ranges. ord low \<le> ord char \<and> ord char \<le> ord high)
        \<or> char \<in> individual_chars) \<noteq> negated)"
  by (rule conjI[OF new_CharacterClassState_eq check_self_class])

text \<open>
  Three bodies: a negated class whose trailing \<open>-\<close> is a single character, a class that
  is a character and a dangling \<open>-\<close>, and two ranges followed by a single character.
\<close>

theorem character_class_parsing_witness:
  "new_CharacterClassState ''^a-c-'' = CharacterClassState [(CHR ''a'', CHR ''c'')] {CHR ''-''} True \<and>
   new_CharacterClassState ''a-'' = CharacterClassState [] {CHR ''a'', CHR ''-''} False \<and>
   new_CharacterClassState ''a-z0-9_'' =
     CharacterClassState [(CHR ''a'', CHR ''z''), (CHR ''0'', CHR ''9'')] {CHR ''_''} False"
  using conjunct1[OF character_class_parsing[where class_spec = "''^a-c-''"]]
    conjunct1[OF character_class_parsing[where class_spec = "''a-''"]]
    conjunct1[OF character_class_parsing[where class_spec = "''a-z0-9_''"]]
  by (simp add: Let_def)

subsection \<open>C5: the ranges of a compiled character class\<close>

text \<open>
  Claim C5, as amended. For every pattern the compiler accepts, every \<open>(low, high)\<close> in
  the range list of a compiled character-class state is a pair of pattern characters
  written around a \<open>-\<close>, in the order they are written; so \<open>low \<le> high\<close> holds for it when
  every character, \<open>-\<close>, character triple of the pattern is in code-point order. The
  compiler neither checks nor reorders the pair.
\<close>

theorem char_ranges_as_written:
  assumes "RegexFSM_init regex_expr = Inr self" and "s \<in> set (objects self)"
    and "kind s = CharacterClassState char_ranges individual_chars negated"
    and "(low, high) \<in> set char_ranges"
  shows "(\<exists>k. k + 2 < length regex_expr \<and> regex_expr ! k = low \<and>
             regex_expr ! (k + 1) = CHR ''-'' \<and> regex_expr ! (k + 2) = high) \<and>
         ((\<forall>k. k + 2 < length regex_expr \<and> regex_expr ! (k + 1) = CHR ''-'' \<longrightarrow>
               ord (regex_expr ! k) \<le> ord (regex_expr ! (k + 2))) \<longrightarrow>
          ord low \<le> ord high)"
proof -
  have "ranges_written regex_expr (kind s)" using assms(1,2) by (rule compiled_ranges_written)
  with assms(3,4) have "written_range regex_expr low high"
    unfolding ranges_written_def by auto
  then show ?thesis unfolding written_range_def by auto
qed

theorem char_ranges_as_written_witness:
  "(\<exists>k. k + 2 < length ''[a-z]'' \<and> ''[a-z]'' ! k = CHR ''a'' \<and> ''[a-z]'' ! (k + 1) = CHR ''-'' \<and>
        ''[a-z]'' ! (k + 2) = CHR ''z'') \<and> ord CHR ''a'' \<le> ord CHR ''z''"
proof -
  let ?s = "\<lparr>kind = CharacterClassState [(CHR ''a'', CHR ''z'')] {} False, next_states = [2]\<rparr>"
  let ?m = "\<lparr>start_state = 0, objects =
          [\<lparr>kind = StartState, next_states = [1]\<rparr>, ?s,
           \<lparr>kind = TerminationState, next_states = []\<rparr>]\<rparr>"
  have mem: "?s \<in> set (objects ?m)" by simp
  have kd: "kind ?s = CharacterClassState [(CHR ''a'', CHR ''z'')] {} False" by simp
  have inr: "(CHR ''a'', CHR ''z'') \<in> set [(CHR ''a'', CHR ''z'')]" by simp
  have ordered: "\<forall>k. k + 2 < length ''[a-z]'' \<and> ''[a-z]'' ! (k + 1) = CHR ''-'' \<longrightarrow>
      ord (''[a-z]'' ! k) \<le> ord (''[a-z]'' ! (k + 2))"
  proof (intro allI impI)
    fix k assume a: "k + 2 < length ''[a-z]'' \<and> ''[a-z]'' ! (k + 1) = CHR ''-''"
    then have "k = 0 \<or> k = 1 \<or> k = 2" by auto
    with a show "ord (''[a-z]'' ! k) \<le> ord (''[a-z]'' ! (k + 2))" by (auto simp: ord_def)
  qed
  from char_ranges_as_written[OF compiled_a_to_z mem kd inr] ordered show ?thesis by blast
qed

text \<open>
  Claim C5 as it is stated fails at the pattern \<open>[z-a]\<close>: it compiles, and its character
  class stores the range \<open>(z, a)\<close>, whose low end is above its high end.
\<close>

theorem char_ranges_ordered_counterexample:
  "RegexFSM_init ''[z-a]'' = Inr \<lparr>start_state = 0, objects =
          [\<lparr>kind = StartState, next_states = [1]\<rparr>,
           \<lparr>kind = CharacterClassState [(CHR ''z'', CHR ''a'')] {} False, next_states = [2]\<rparr>,
           \<lparr>kind = TerminationState, next_states = []\<rparr>]\<rparr>
   \<and> \<not> ord CHR ''z'' \<le> ord CHR ''a''"
  using compiled_reversed by (simp add: ord_def)

subsection \<open>C6: no input value\<close>

text \<open>
  Claim C6. On every compiled machine, \<open>check_string(None)\<close> raises \<open>ValueError\<close>, and
  \<open>check_string("")\<close> raises nothing: it returns the boolean that the termination search
  gives for the closure of the start state.
\<close>

theorem check_string_requires_input:
  assumes "RegexFSM_init regex_expr = Inr self" and "valid_enum enum"
  shows "check_string enum self None = Some (Inl (ValueError ''Input string is required'')) \<and>
    (\<exists>current b. add_epsilon_transitions enum (objects self) {start_state self} = Some current \<and>
       can_terminate_without_input enum (objects self) current = Some b \<and>
       check_string enum self (Some []) = Some (Inr b))"
proof -
  let ?h = "objects self"
  have wf: "wf_heap ?h" and st: "start_state self < length ?h"
    using compiled_store_ok[OF assms(1)] by auto
  have sb: "{start_state self} \<subseteq> {..<length ?h}" using st by simp
  have cl: "add_epsilon_transitions enum ?h {start_state self} = Some (eps_reach ?h {start_state self})"
    by (rule add_epsilon_transitions_eq[OF wf sb assms(2)])
  have rb: "eps_reach ?h {start_state self} \<subseteq> {..<length ?h}"
    by (rule eps_reach_subset[OF wf sb])
  have ct: "can_terminate_without_input enum ?h (eps_reach ?h {start_state self})
      = Some (\<exists>u\<in>eps_reach ?h (eps_reach ?h {start_state self}). has_termination ?h u)"
    by (rule can_terminate_without_input_eq[OF wf rb assms(2)])
  have "check_string enum self (Some [])
      = Some (Inr (\<exists>u\<in>eps_reach ?h (eps_reach ?h {start_state self}). has_termination ?h u))"
    by (simp add: check_string_def cl ct)
  with cl ct show ?thesis by (simp add: check_string_def)
qed

theorem check_string_requires_input_witness:
  "check_string sorted_list_of_set \<lparr>start_state = 0, objects = a_star_store\<rparr> None =
     Some (Inl (ValueError ''Input string is required'')) \<and>
   (\<exists>current b. add_epsilon_transitions sorted_list_of_set a_star_store {0} = Some current \<and>
      can_terminate_without_input sorted_list_of_set a_star_store current = Some b \<and>
      check_string sorted_list_of_set \<lparr>start_state = 0, objects = a_star_store\<rparr> (Some []) = Some (Inr b))"
  using check_string_requires_input[OF compiled_a_star valid_enum_sorted] by simp

subsection \<open>C7: termination\<close>

text \<open>
  Claim C7. On every compiled machine and every input string \<open>check_string\<close> returns a
  boolean; and on every set of states of the machine the closure search returns, with a
  set of states of the machine, and the termination search returns. In the model a search
  that does not return has the value \<open>None\<close>.
\<close>

theorem check_string_terminates:
  assumes "RegexFSM_init regex_expr = Inr self" and "valid_enum enum"
  shows "(\<exists>b. check_string enum self (Some input_str) = Some (Inr b)) \<and>
    (\<forall>states. states \<subseteq> {..<length (objects self)} \<longrightarrow>
       (\<exists>res. add_epsilon_transitions enum (objects self) states = Some res \<and>
              res \<subseteq> {..<length (objects self)}) \<and>
       (\<exists>b. can_terminate_without_input enum (objects self) states = Some b))"
proof -
  let ?h = "objects self"
  have wf: "wf_heap ?h" and st: "start_state self < length ?h"
    using compiled_store_ok[OF assms(1)] by auto
  have "check_string enum self (Some input_str) = Some (Inr (accepts self input_str))"
    by (rule check_string_eq[OF wf st assms(2)])
  moreover have "\<exists>res. add_epsilon_transitions enum ?h states = Some res \<and> res \<subseteq> {..<length ?h}"
    if "states \<subseteq> {..<length ?h}" for states
    using add_epsilon_transitions_eq[OF wf that assms(2)] eps_reach_subset[OF wf that] by simp
  moreover have "\<exists>b. can_terminate_without_input enum ?h states = Some b"
    if "states \<subseteq> {..<length ?h}" for states
    using can_terminate_without_input_eq[OF wf that assms(2)] by simp
  ultimately show ?thesis by blast
qed

theorem check_string_terminates_witness:
  "\<exists>b. check_string sorted_list_of_set \<lparr>start_state = 0, objects = a_star_store\<rparr> (Some ''aab'') =
     Some (Inr b)"
  using check_string_terminates[OF compiled_a_star valid_enum_sorted, of "''aab''"] by blast

subsection \<open>C8: compiling twice\<close>

text \<open>
  Claim C8. Two machines compiled from the same pattern return the same boolean on every
  input string. The two instances differ in the addresses of their objects, which the
  program can observe only through the order in which its sets are iterated; so each
  machine has an iteration order of its own here, \<open>enum1\<close> and \<open>enum2\<close>.
\<close>

theorem compile_twice_same_answer:
  assumes "RegexFSM_init regex_expr = Inr fsm1" and "RegexFSM_init regex_expr = Inr fsm2"
    and "valid_enum enum1" and "valid_enum enum2"
  shows "\<exists>b. check_string enum1 fsm1 (Some input_str) = Some (Inr b) \<and>
             check_string enum2 fsm2 (Some input_str) = Some (Inr b)"
proof -
  from assms(1,2) have same: "fsm2 = fsm1" by simp
  have wf: "wf_heap (objects fsm1)" and st: "start_state fsm1 < length (objects fsm1)"
    using compiled_store_ok[OF assms(1)] by auto
  have "check_string enum1 fsm1 (Some input_str) = Some (Inr (accepts fsm1 input_str))"
    by (rule check_string_eq[OF wf st assms(3)])
  moreover have "check_string enum2 fsm1 (Some input_str) = Some (Inr (accepts fsm1 input_str))"
    by (rule check_string_eq[OF wf st assms(4)])
  ultimately show ?thesis unfolding same by blast
qed

text \<open>
  The theorem at the pattern \<open>a*\<close>, one machine iterating its sets in increasing and the
  other in decreasing order of reference.
\<close>

theorem compile_twice_same_answer_witness:
  "\<exists>b. check_string sorted_list_of_set \<lparr>start_state = 0, objects = a_star_store\<rparr> (Some ''aab'') =
       Some (Inr b) \<and>
     check_string (rev \<circ> sorted_list_of_set) \<lparr>start_state = 0, objects = a_star_store\<rparr> (Some ''aab'') =
       Some (Inr b)"
  by (rule compile_twice_same_answer[OF compiled_a_star compiled_a_star valid_enum_sorted valid_enum_rev])

subsection \<open>C9: the compiler raises in the three cases only\<close>

text \<open>
  Claim C9. The constructor returns a machine if and only if the pattern is not empty,
  does not start with \<open>*\<close> or \<open>+\<close>, and holds no \<open>[\<close> without a \<open>]\<close> after it. In
  particular \<open>a**\<close> and \<open>a+*\<close> compile, the second quantifier wrapping the \<open>StarState\<close> or
  \<open>PlusState\<close> of the first one, and \<open>a]\<close> compiles with the \<open>]\<close> as a literal character.
\<close>

theorem compile_errors_only:
  "((\<exists>self. RegexFSM_init regex_expr = Inr self) \<longleftrightarrow>
      regex_expr \<noteq> [] \<and> regex_expr ! 0 \<noteq> CHR ''*'' \<and> regex_expr ! 0 \<noteq> CHR ''+'' \<and>
      \<not> (\<exists>k<length regex_expr. regex_expr ! k = CHR ''['' \<and> CHR '']'' \<notin> set (drop (k + 1) regex_expr))) \<and>
   RegexFSM_init ''a**'' = Inr \<lparr>start_state = 0, objects =
     [\<lparr>kind = StartState, next_states = [3]\<rparr>,
      \<lparr>kind = AsciiState CHR ''a'', next_states = []\<rparr>,
      \<lparr>kind = StarState (AsciiState CHR ''a''), next_states = [2]\<rparr>,
      \<lparr>kind = StarState (StarState (AsciiState CHR ''a'')), next_states = [3, 4]\<rparr>,
      \<lparr>kind = TerminationState, next_states = []\<rparr>]\<rparr> \<and>
   RegexFSM_init ''a+*'' = Inr \<lparr>start_state = 0, objects =
     [\<lparr>kind = StartState, next_states = [3]\<rparr>,
      \<lparr>kind = AsciiState CHR ''a'', next_states = []\<rparr>,
      \<lparr>kind = PlusState (AsciiState CHR ''a''), next_states = [2]\<rparr>,
      \<lparr>kind = StarState (PlusState (AsciiState CHR ''a'')), next_states = [3, 4]\<rparr>,
      \<lparr>kind = TerminationState, next_states = []\<rparr>]\<rparr> \<and>
   RegexFSM_init ''a]'' = Inr \<lparr>start_state = 0, objects =
     [\<lparr>kind = StartState, next_states = [1]\<rparr>,
      \<lparr>kind = AsciiState CHR ''a'', next_states = [2]\<rparr>,
      \<lparr>kind = AsciiState CHR '']'', next_states = [3]\<rparr>,
      \<lparr>kind = TerminationState, next_states = []\<rparr>]\<rparr>"
proof -
  have "(\<exists>self. RegexFSM_init regex_expr = Inr self) \<longleftrightarrow> \<not> (\<exists>e. RegexFSM_init regex_expr = Inl e)"
    by (cases "RegexFSM_init regex_expr") auto
  then have 1: "(\<exists>self. RegexFSM_init regex_expr = Inr self) \<longleftrightarrow>
      regex_expr \<noteq> [] \<and> regex_expr ! 0 \<noteq> CHR ''*'' \<and> regex_expr ! 0 \<noteq> CHR ''+'' \<and>
      \<not> (\<exists>k<length regex_expr. regex_expr ! k = CHR ''['' \<and> CHR '']'' \<notin> set (drop (k + 1) regex_expr))"
    unfolding RegexFSM_init_error unclosed_0 by blast
  have 2: "RegexFSM_init ''a**'' = Inr \<lparr>start_state = 0, objects =
     [\<lparr>kind = StartState, next_states = [3]\<rparr>,
      \<lparr>kind = AsciiState CHR ''a'', next_states = []\<rparr>,
      \<lparr>kind = StarState (AsciiState CHR ''a''), next_states = [2]\<rparr>,
      \<lparr>kind = StarState (StarState (AsciiState CHR ''a'')), next_states = [3, 4]\<rparr>,
      \<lparr>kind = TerminationState, next_states = []\<rparr>]\<rparr>"
    by code_simp
  have 3: "RegexFSM_init ''a+*'' = Inr \<lparr>start_state = 0, objects =
     [\<lparr>kind = StartState, next_states = [3]\<rparr>,
      \<lparr>kind = AsciiState CHR ''a'', next_states = []\<rparr>,
      \<lparr>kind = PlusState (AsciiState CHR ''a''), next_states = [2]\<rparr>,
      \<lparr>kind = StarState (PlusState (AsciiState CHR ''a'')), next_states = [3, 4]\<rparr>,
      \<lparr>kind = TerminationState, next_states = []\<rparr>]\<rparr>"
    by code_simp
  have 4: "RegexFSM_init ''a]'' = Inr \<lparr>start_state = 0, objects =
     [\<lparr>kind = StartState, next_states = [1]\<rparr>,
      \<lparr>kind = AsciiState CHR ''a'', next_states = [2]\<rparr>,
      \<lparr>kind = AsciiState CHR '']'', next_states = [3]\<rparr>,
      \<lparr>kind = TerminationState, next_states = []\<rparr>]\<rparr>"
    by code_simp
  from 1 2 3 4 show ?thesis by blast
qed

theorem compile_errors_only_witness:
  "(\<exists>self. RegexFSM_init ''x]y*+'' = Inr self) \<and> \<not> (\<exists>self. RegexFSM_init ''ab[c'' = Inr self)"
proof -
  have "CHR ''['' \<notin> set ''x]y*+''" by simp
  then have a: "\<not> (\<exists>k<length ''x]y*+''. ''x]y*+'' ! k = CHR ''['' \<and> CHR '']'' \<notin> set (drop (k + 1) ''x]y*+''))"
    by (metis nth_mem)
  have b: "\<exists>k<length ''ab[c''. ''ab[c'' ! k = CHR ''['' \<and> CHR '']'' \<notin> set (drop (k + 1) ''ab[c'')"
    by (rule exI[of _ 2]) simp
  note e1 = conjunct1[OF compile_errors_only[of "''x]y*+''"]]
  note e2 = conjunct1[OF compile_errors_only[of "''ab[c''"]]
  have "\<exists>self. RegexFSM_init ''x]y*+'' = Inr self" unfolding e1 using a by simp
  moreover have "\<not> (\<exists>self. RegexFSM_init ''ab[c'' = Inr self)" unfolding e2 using b by blast
  ultimately show ?thesis by blast
qed

subsection \<open>C10: empty bracket bodies\<close>

text \<open>
  Claim C10. An empty bracket body is not a compile error. The pattern \<open>[]\<close> compiles to
  start state, one character-class state with no range, no single character and
  \<open>negated = False\<close>, and termination state; that class state accepts no character. The
  pattern \<open>[^]\<close> compiles to the same graph with \<open>negated = True\<close>, and its class state
  accepts every character.
\<close>

theorem empty_bracket_body:
  "RegexFSM_init ''[]'' =
     Inr \<lparr>start_state = 0, objects =
       [\<lparr>kind = StartState, next_states = [1]\<rparr>,
        \<lparr>kind = CharacterClassState [] {} False, next_states = [2]\<rparr>,
        \<lparr>kind = TerminationState, next_states = []\<rparr>]\<rparr>
   \<and> (\<forall>char. check_self (CharacterClassState [] {} False) char = False)
   \<and> RegexFSM_init ''[^]'' =
     Inr \<lparr>start_state = 0, objects =
       [\<lparr>kind = StartState, next_states = [1]\<rparr>,
        \<lparr>kind = CharacterClassState [] {} True, next_states = [2]\<rparr>,
        \<lparr>kind = TerminationState, next_states = []\<rparr>]\<rparr>
   \<and> (\<forall>char. check_self (CharacterClassState [] {} True) char = True)"
proof -
  have "RegexFSM_init ''[]'' =
     Inr \<lparr>start_state = 0, objects =
       [\<lparr>kind = StartState, next_states = [1]\<rparr>,
        \<lparr>kind = CharacterClassState [] {} False, next_states = [2]\<rparr>,
        \<lparr>kind = TerminationState, next_states = []\<rparr>]\<rparr>"
    by code_simp
  moreover have "RegexFSM_init ''[^]'' =
     Inr \<lparr>start_state = 0, objects =
       [\<lparr>kind = StartState, next_states = [1]\<rparr>,
        \<lparr>kind = CharacterClassState [] {} True, next_states = [2]\<rparr>,
        \<lparr>kind = TerminationState, next_states = []\<rparr>]\<rparr>"
    by code_simp
  ultimately show ?thesis by simp
qed

end
